theory Spec2Isabelle
  imports Complex_Main "HOL-Library.List_Lexorder" "HOL-Library.Char_ord"
begin

section \<open>Data model\<close>

text \<open>
  Modelled from the spec: the declarations of \<^verbatim>\<open>ConversationExchange\<close> and \<^verbatim>\<open>ToolCall\<close>
  (\<^verbatim>\<open>types.ts\<close>) are not among the sources. The two records have the attributes of the
  specification's data model under the names by which the providers and the migration
  tool read them. Where two records share a field name the object's fields carry a prefix
  (\<open>x_\<close> for the exchange, \<open>t_\<close> for the tool call) and the tool-call row's fields the
  prefix \<open>tc_\<close>; the column \<^verbatim>\<open>id\<close> of the exchanges table is \<open>id'\<close>. The structured tool
  input is an object, a value of an arbitrary type \<open>'j\<close>; an embedding is a list of exact
  numbers, with no rounding to single precision.
\<close>

type_synonym embedding = "real list"

record 'j ToolCall =
  t_id :: string
  exchangeId :: string
  toolName :: string
  toolInput :: "'j option"
  toolResult :: "string option"
  isError :: bool
  t_timestamp :: string

record 'j ConversationExchange =
  x_id :: string
  x_project :: string
  x_timestamp :: string
  userMessage :: string
  assistantMessage :: string
  archivePath :: string
  lineStart :: int
  lineEnd :: int
  parentUuid :: "string option"
  isSidechain :: "bool option"
  sessionId :: "string option"
  x_cwd :: "string option"
  gitBranch :: "string option"
  claudeVersion :: "string option"
  thinkingLevel :: "string option"
  thinkingDisabled :: "bool option"
  thinkingTriggers :: "string option"
  toolCalls :: "'j ToolCall list option"

text \<open>
  The tool calls an exchange object carries: \<^verbatim>\<open>exchange.toolCalls\<close>, none when the field
  is absent.
\<close>

definition carried :: "'j ConversationExchange \<Rightarrow> 'j ToolCall list" where
  "carried exchange = (case toolCalls exchange of None \<Rightarrow> [] | Some tcs \<Rightarrow> tcs)"

text \<open>
  A row of the table \<^verbatim>\<open>exchanges\<close> and a row of the table \<^verbatim>\<open>tool_calls\<close>, with the columns
  of the two \<^verbatim>\<open>CREATE TABLE\<close> statements. The type \<open>'ts\<close> of the timestamp column is
  \<open>string\<close> on the embedded backend (\<^verbatim>\<open>TEXT\<close>) and the type of instants on the server
  backend (\<^verbatim>\<open>TIMESTAMPTZ\<close>). A nullable column is an option; the embedded backend's
  \<^verbatim>\<open>BOOLEAN\<close> values 1 and 0 are written \<open>True\<close> and \<open>False\<close>.
\<close>

record 'ts ExchangeRow =
  id' :: string
  project :: string
  timestamp :: 'ts
  user_message :: string
  assistant_message :: string
  archive_path :: string
  line_start :: int
  line_end :: int
  embedding :: "embedding option"
  last_indexed :: "int option"
  parent_uuid :: "string option"
  is_sidechain :: "bool option"
  session_id :: "string option"
  cwd :: "string option"
  git_branch :: "string option"
  claude_version :: "string option"
  thinking_level :: "string option"
  thinking_disabled :: "bool option"
  thinking_triggers :: "string option"

record 'ts ToolCallRow =
  tc_id :: string
  exchange_id :: string
  tool_name :: string
  tool_input :: "string option"
  tool_result :: "string option"
  is_error :: "bool option"
  tc_timestamp :: 'ts

record SearchOptions =
  limit :: "int option"
  after :: "string option"
  before :: "string option"

text \<open>
  What the code takes from its runtime and from the server's input conversion:
  \<^verbatim>\<open>JSON.parse\<close> (\<open>None\<close> when it throws), \<^verbatim>\<open>JSON.stringify\<close>, and the conversion of a
  text to \<^verbatim>\<open>TIMESTAMPTZ\<close> (\<open>None\<close> when the server rejects the text).
\<close>

record ('j, 'ts) engine =
  JSON_parse :: "string \<Rightarrow> 'j option"
  JSON_stringify :: "'j \<Rightarrow> string"
  timestamptz_in :: "string \<Rightarrow> 'ts option"

datatype error =
    NotInitialized
  | DatabaseNotFound
  | ForeignKeyViolation
  | UniqueViolation
  | DimensionMismatch
  | InvalidTimestamp
  | JsonSyntaxError
  | NegativeLimit
  | SqlTextAltered

text \<open>The width of the vector column: \<^verbatim>\<open>FLOAT[384]\<close> and \<^verbatim>\<open>vector(384)\<close>.\<close>

definition EMBEDDING_DIM :: nat where
  "EMBEDDING_DIM = 384"

subsection \<open>JavaScript coercions\<close>

text \<open>\<^verbatim>\<open>v || null\<close> and \<^verbatim>\<open>v || undefined\<close> on an optional string: the empty string is falsy.\<close>

definition or_null :: "string option \<Rightarrow> string option" where
  "or_null v = (case v of None \<Rightarrow> None | Some s \<Rightarrow> if s = [] then None else Some s)"

text \<open>\<^verbatim>\<open>v ? 1 : 0\<close>, \<^verbatim>\<open>v || false\<close> and \<^verbatim>\<open>Boolean(v)\<close> on an optional flag.\<close>

definition truthy :: "bool option \<Rightarrow> bool" where
  "truthy v = (case v of None \<Rightarrow> False | Some b \<Rightarrow> b)"

text \<open>\<^verbatim>\<open>const { limit = 10 } = options\<close>.\<close>

definition limit_or_default :: "SearchOptions \<Rightarrow> int" where
  "limit_or_default opts = (case limit opts of None \<Rightarrow> 10 | Some n \<Rightarrow> n)"

subsection \<open>Pattern matching of the two stores\<close>

text \<open>
  \<^verbatim>\<open>LIKE\<close> of the embedded store and \<^verbatim>\<open>ILIKE\<close> of the server: \<^verbatim>\<open>%\<close> matches any run of
  characters, \<^verbatim>\<open>_\<close> any one character, and any other character matches itself or the
  same letter in the other case. The embedded store's \<^verbatim>\<open>LIKE\<close> folds the case of the
  ASCII letters by default (its \<^verbatim>\<open>case_sensitive_like\<close> setting is off and the code never
  turns it on). On the server the backslash is the escape character: the character after
  it stands for itself. The embedded store has no escape character unless the statement
  names one. Characters are those of \<open>string\<close>, and case folding is that of ASCII.
\<close>

definition lower :: "char \<Rightarrow> char" where
  "lower c = (if CHR ''A'' \<le> c \<and> c \<le> CHR ''Z'' then char_of (of_char c + (32::nat)) else c)"

fun like_match :: "bool \<Rightarrow> string \<Rightarrow> string \<Rightarrow> bool" where
  "like_match esc [] s = (s = [])"
| "like_match esc (p # ps) [] = (p = CHR ''%'' \<and> like_match esc ps [])"
| "like_match esc (p # ps) (c # cs) =
     (if p = CHR ''%'' then like_match esc ps (c # cs) \<or> like_match esc (p # ps) cs
      else if p = CHR ''_'' then like_match esc ps cs
      else if esc \<and> p = CHR 0x5C then
        (case ps of [] \<Rightarrow> False | q # qs \<Rightarrow> lower q = lower c \<and> like_match esc qs cs)
      else lower p = lower c \<and> like_match esc ps cs)"

text \<open>The pattern of both providers: \<^verbatim>\<open>`%${query}%`\<close>.\<close>

definition likePattern :: "string \<Rightarrow> string" where
  "likePattern query = CHR ''%'' # query @ [CHR ''%'']"

definition LIKE :: "string \<Rightarrow> string \<Rightarrow> bool" where
  "LIKE text pat = like_match False pat text"

definition ILIKE :: "string \<Rightarrow> string \<Rightarrow> bool" where
  "ILIKE text pat = like_match True pat text"

text \<open>
  The specification's reading of a text match, to compare the patterns with: the message
  contains the query as a substring, letters compared without regard to ASCII case. A
  query is plain when it holds none of the pattern's special characters.
\<close>

definition plain :: "bool \<Rightarrow> string \<Rightarrow> bool" where
  "plain esc q = (CHR ''%'' \<notin> set q \<and> CHR ''_'' \<notin> set q \<and> (esc \<longrightarrow> CHR 0x5C \<notin> set q))"

fun prefix_ci :: "string \<Rightarrow> string \<Rightarrow> bool" where
  "prefix_ci [] s = True"
| "prefix_ci (a # q) [] = False"
| "prefix_ci (a # q) (c # cs) = (lower a = lower c \<and> prefix_ci q cs)"

fun contains_ci :: "string \<Rightarrow> string \<Rightarrow> bool" where
  "contains_ci q [] = (q = [])"
| "contains_ci q (c # cs) = (prefix_ci q (c # cs) \<or> contains_ci q cs)"

subsection \<open>Vector distance\<close>

text \<open>
  Both stores rank by Euclidean distance. The model ranks by its square, which orders the
  rows the same way, over exact numbers.
\<close>

definition distance :: "embedding \<Rightarrow> embedding \<Rightarrow> real" where
  "distance u v = sum_list (map2 (\<lambda>a b. (a - b)\<^sup>2) u v)"

subsection \<open>Time window\<close>

text \<open>
  An instant lies in the window of two optional bounds when it is not before the lower
  bound and not after the upper bound; a bound itself lies in the window.
\<close>

definition in_window :: "('ts::linorder) option \<Rightarrow> 'ts option \<Rightarrow> 'ts \<Rightarrow> bool" where
  "in_window a b t =
     ((case a of None \<Rightarrow> True | Some x \<Rightarrow> x \<le> t) \<and> (case b of None \<Rightarrow> True | Some y \<Rightarrow> t \<le> y))"

section \<open>Embedded backend\<close>

text \<open>
  The embedded store: its three tables in row order, and whether the connection enforces
  foreign keys (\<^verbatim>\<open>PRAGMA foreign_keys\<close>, which the provider never sets, so the value is
  the one the library was built with). The provider's field \<^verbatim>\<open>db\<close> is \<open>None\<close> before
  \<^verbatim>\<open>initialize\<close> and after \<^verbatim>\<open>close\<close>.
\<close>

record sqlite_db =
  exchanges :: "string ExchangeRow list"
  tool_calls :: "string ToolCallRow list"
  vec_exchanges :: "(string \<times> embedding) list"
  foreign_keys :: bool

type_synonym SqliteProvider = "sqlite_db option"

text \<open>The values bound to the eighteen parameters of the provider's first statement.\<close>

definition sqlite_exchange_row :: "int \<Rightarrow> 'j ConversationExchange \<Rightarrow> string ExchangeRow" where
  "sqlite_exchange_row now exchange =
     \<lparr> id' = x_id exchange,
       project = x_project exchange,
       timestamp = x_timestamp exchange,
       user_message = userMessage exchange,
       assistant_message = assistantMessage exchange,
       archive_path = archivePath exchange,
       line_start = lineStart exchange,
       line_end = lineEnd exchange,
       embedding = None,
       last_indexed = Some now,
       parent_uuid = or_null (parentUuid exchange),
       is_sidechain = Some (truthy (isSidechain exchange)),
       session_id = or_null (sessionId exchange),
       cwd = or_null (x_cwd exchange),
       git_branch = or_null (gitBranch exchange),
       claude_version = or_null (claudeVersion exchange),
       thinking_level = or_null (thinkingLevel exchange),
       thinking_disabled = Some (truthy (thinkingDisabled exchange)),
       thinking_triggers = or_null (thinkingTriggers exchange) \<rparr>"

definition sqlite_tool_call_row :: "('j, 'ts) engine \<Rightarrow> 'j ToolCall \<Rightarrow> string ToolCallRow" where
  "sqlite_tool_call_row E toolCall =
     \<lparr> tc_id = t_id toolCall,
       exchange_id = exchangeId toolCall,
       tool_name = toolName toolCall,
       tool_input = map_option (JSON_stringify E) (toolInput toolCall),
       tool_result = or_null (toolResult toolCall),
       is_error = Some (isError toolCall),
       tc_timestamp = t_timestamp toolCall \<rparr>"

text \<open>
  \<^verbatim>\<open>INSERT OR REPLACE INTO exchanges\<close>: the row that holds the key is deleted and the new
  row is inserted. The table's foreign key has no \<^verbatim>\<open>ON DELETE\<close> action, and the key is
  there again when the statement ends, so the tool calls stay and no check fails.
\<close>

definition replace_exchange :: "string ExchangeRow \<Rightarrow> sqlite_db \<Rightarrow> sqlite_db" where
  "replace_exchange r s = s\<lparr>exchanges := filter (\<lambda>e. id' e \<noteq> id' r) (exchanges s) @ [r]\<rparr>"

text \<open>\<^verbatim>\<open>DELETE FROM vec_exchanges WHERE id = ?\<close>.\<close>

definition delete_vec :: "string \<Rightarrow> sqlite_db \<Rightarrow> sqlite_db" where
  "delete_vec i s = s\<lparr>vec_exchanges := filter (\<lambda>v. fst v \<noteq> i) (vec_exchanges s)\<rparr>"

text \<open>
  \<^verbatim>\<open>INSERT INTO vec_exchanges (id, embedding)\<close>: the vector table takes vectors of its
  width only, and the identifier is its primary key.
\<close>

definition insert_vec :: "string \<Rightarrow> embedding \<Rightarrow> sqlite_db \<Rightarrow> error + sqlite_db" where
  "insert_vec i v s =
     (if length v \<noteq> EMBEDDING_DIM then Inl DimensionMismatch
      else if i \<in> fst ` set (vec_exchanges s) then Inl UniqueViolation
      else Inr (s\<lparr>vec_exchanges := vec_exchanges s @ [(i, v)]\<rparr>))"

text \<open>
  \<^verbatim>\<open>INSERT OR REPLACE INTO tool_calls\<close>. With foreign keys enforced the owning exchange
  must exist.
\<close>

definition replace_tool_call :: "string ToolCallRow \<Rightarrow> sqlite_db \<Rightarrow> error + sqlite_db" where
  "replace_tool_call t s =
     (if foreign_keys s \<and> exchange_id t \<notin> id' ` set (exchanges s) then Inl ForeignKeyViolation
      else Inr (s\<lparr>tool_calls := filter (\<lambda>u. tc_id u \<noteq> tc_id t) (tool_calls s) @ [t]\<rparr>))"

text \<open>
  The loop over \<^verbatim>\<open>exchange.toolCalls\<close>. No transaction wraps the provider's statements:
  when one throws, what the earlier ones wrote stays, so the state is returned beside the
  error.
\<close>

fun sqlite_insert_tool_calls ::
  "('j, 'ts) engine \<Rightarrow> 'j ToolCall list \<Rightarrow> sqlite_db \<Rightarrow> error option \<times> sqlite_db" where
  "sqlite_insert_tool_calls E [] s = (None, s)"
| "sqlite_insert_tool_calls E (toolCall # rest) s =
     (case replace_tool_call (sqlite_tool_call_row E toolCall) s of
        Inl e \<Rightarrow> (Some e, s)
      | Inr s' \<Rightarrow> sqlite_insert_tool_calls E rest s')"

text \<open>
  \<^verbatim>\<open>SqliteProvider.insertExchange\<close>; \<open>now\<close> is the reading of \<^verbatim>\<open>Date.now()\<close>. The result
  is the error thrown, if any, and the provider afterwards. (The parameter
  \<^verbatim>\<open>toolNames\<close> is not used by either provider and is left out.)
\<close>

definition Sqlite_insertExchange ::
  "('j, 'ts) engine \<Rightarrow> int \<Rightarrow> SqliteProvider \<Rightarrow> 'j ConversationExchange \<Rightarrow> embedding
     \<Rightarrow> error option \<times> SqliteProvider" where
  "Sqlite_insertExchange E now P exchange emb =
     (case P of
        None \<Rightarrow> (Some NotInitialized, None)
      | Some s0 \<Rightarrow>
          let s1 = replace_exchange (sqlite_exchange_row now exchange) s0;
              s2 = delete_vec (x_id exchange) s1
          in (case insert_vec (x_id exchange) emb s2 of
                Inl e \<Rightarrow> (Some e, Some s2)
              | Inr s3 \<Rightarrow>
                  (case toolCalls exchange of
                     None \<Rightarrow> (None, Some s3)
                   | Some tcs \<Rightarrow>
                       (case sqlite_insert_tool_calls E tcs s3 of
                          (r, s4) \<Rightarrow> (r, Some s4)))))"

text \<open>
  \<^verbatim>\<open>DELETE FROM exchanges WHERE id = ?\<close>. With foreign keys enforced the statement fails
  when a tool call still refers to the row, since the key declares no \<^verbatim>\<open>ON DELETE\<close>
  action; without enforcement the row goes and the tool calls stay.
\<close>

definition delete_exchange :: "string \<Rightarrow> sqlite_db \<Rightarrow> error + sqlite_db" where
  "delete_exchange i s =
     (if foreign_keys s \<and> i \<in> id' ` set (exchanges s) \<and> i \<in> exchange_id ` set (tool_calls s)
      then Inl ForeignKeyViolation
      else Inr (s\<lparr>exchanges := filter (\<lambda>e. id' e \<noteq> i) (exchanges s)\<rparr>))"

text \<open>\<^verbatim>\<open>SqliteProvider.deleteExchange\<close>: the vector entry first, then the row.\<close>

definition Sqlite_deleteExchange :: "SqliteProvider \<Rightarrow> string \<Rightarrow> error option \<times> SqliteProvider" where
  "Sqlite_deleteExchange P i =
     (case P of
        None \<Rightarrow> (Some NotInitialized, None)
      | Some s0 \<Rightarrow>
          let s1 = delete_vec i s0
          in (case delete_exchange i s1 of
                Inl e \<Rightarrow> (Some e, Some s1)
              | Inr s2 \<Rightarrow> (None, Some s2)))"

subsection \<open>Search on the embedded backend\<close>

text \<open>
  The provider splices \<^verbatim>\<open>after\<close> and \<^verbatim>\<open>before\<close> into the statement's text between single
  quotes. A value that holds a single quote changes the statement itself; the model stops
  there with \<open>SqlTextAltered\<close> and says nothing about what the store then runs. Otherwise
  the condition compares the \<^verbatim>\<open>TEXT\<close> column with the value as strings. By
  \<^verbatim>\<open>if (after)\<close> an option that is absent or the empty string adds no condition.
\<close>

definition has_quote :: "string option \<Rightarrow> bool" where
  "has_quote v = (case v of None \<Rightarrow> False | Some s \<Rightarrow> CHR 0x27 \<in> set s)"

definition sqlite_time_clause :: "SearchOptions \<Rightarrow> string ExchangeRow \<Rightarrow> bool" where
  "sqlite_time_clause opts e =
     ((case after opts of None \<Rightarrow> True | Some a \<Rightarrow> a = [] \<or> a \<le> timestamp e) \<and>
      (case before opts of None \<Rightarrow> True | Some b \<Rightarrow> b = [] \<or> timestamp e \<le> b))"

text \<open>\<^verbatim>\<open>ORDER BY e.timestamp DESC\<close>; rows of equal timestamp keep the table's order.\<close>

definition order_by_timestamp_desc :: "('ts::linorder) ExchangeRow list \<Rightarrow> 'ts ExchangeRow list" where
  "order_by_timestamp_desc rows = rev (sort_key timestamp (rev rows))"

text \<open>\<^verbatim>\<open>LIMIT ?\<close> of the embedded store: a negative limit is no limit.\<close>

definition sqlite_limit :: "int \<Rightarrow> 'a list \<Rightarrow> 'a list" where
  "sqlite_limit n rows = (if n < 0 then rows else take (nat n) rows)"

text \<open>
  \<^verbatim>\<open>SqliteProvider.searchByVector\<close>. The vector table answers
  \<^verbatim>\<open>embedding MATCH ? AND k = ?\<close> with the \<open>k\<close> nearest entries of the whole table; the
  join with \<^verbatim>\<open>exchanges\<close> and the time condition apply to those \<open>k\<close> entries. A result is
  the row found (of which the statement selects all columns but \<^verbatim>\<open>embedding\<close> and
  \<^verbatim>\<open>last_indexed\<close>) with its distance.
\<close>

definition knn :: "embedding \<Rightarrow> nat \<Rightarrow> (string \<times> embedding) list \<Rightarrow> (string \<times> real) list" where
  "knn q k vs = take k (sort_key snd (map (\<lambda>v. (fst v, distance (snd v) q)) vs))"

definition Sqlite_searchByVector ::
  "SqliteProvider \<Rightarrow> embedding \<Rightarrow> SearchOptions \<Rightarrow> error + (string ExchangeRow \<times> real) list" where
  "Sqlite_searchByVector P q opts =
     (case P of
        None \<Rightarrow> Inl NotInitialized
      | Some s \<Rightarrow>
          if has_quote (after opts) \<or> has_quote (before opts) then Inl SqlTextAltered
          else if length q \<noteq> EMBEDDING_DIM then Inl DimensionMismatch
          else if limit_or_default opts < 0 then Inl NegativeLimit
          else
            let vec = knn q (nat (limit_or_default opts)) (vec_exchanges s);
                joined = concat (map (\<lambda>v. map (\<lambda>e. (e, snd v))
                                  (filter (\<lambda>e. id' e = fst v) (exchanges s))) vec)
            in Inr (sort_key snd (filter (\<lambda>r. sqlite_time_clause opts (fst r)) joined)))"

text \<open>\<^verbatim>\<open>SqliteProvider.searchByText\<close>; the distance of every result is 0.\<close>

definition Sqlite_searchByText ::
  "SqliteProvider \<Rightarrow> string \<Rightarrow> SearchOptions \<Rightarrow> error + (string ExchangeRow \<times> real) list" where
  "Sqlite_searchByText P query opts =
     (case P of
        None \<Rightarrow> Inl NotInitialized
      | Some s \<Rightarrow>
          if has_quote (after opts) \<or> has_quote (before opts) then Inl SqlTextAltered
          else
            let hits = filter (\<lambda>e. (LIKE (user_message e) (likePattern query) \<or>
                                     LIKE (assistant_message e) (likePattern query)) \<and>
                                    sqlite_time_clause opts e) (exchanges s)
            in Inr (map (\<lambda>e. (e, 0))
                     (sqlite_limit (limit_or_default opts) (order_by_timestamp_desc hits))))"

section \<open>Server backend\<close>

text \<open>
  The server's two tables that the claims are about. The provider's field \<^verbatim>\<open>pool\<close> is
  \<open>None\<close> before \<^verbatim>\<open>initialize\<close> and after \<^verbatim>\<open>close\<close>.
\<close>

record 'ts pg_db =
  pg_exchanges :: "'ts ExchangeRow list"
  pg_tool_calls :: "'ts ToolCallRow list"

type_synonym 'ts PostgresProvider = "'ts pg_db option"

text \<open>The nineteen parameters of the upsert, the timestamp already converted.\<close>

definition pg_exchange_row ::
  "'ts \<Rightarrow> int \<Rightarrow> 'j ConversationExchange \<Rightarrow> embedding \<Rightarrow> 'ts ExchangeRow" where
  "pg_exchange_row ts now exchange emb =
     \<lparr> id' = x_id exchange,
       project = x_project exchange,
       timestamp = ts,
       user_message = userMessage exchange,
       assistant_message = assistantMessage exchange,
       archive_path = archivePath exchange,
       line_start = lineStart exchange,
       line_end = lineEnd exchange,
       embedding = Some emb,
       last_indexed = Some now,
       parent_uuid = or_null (parentUuid exchange),
       is_sidechain = Some (truthy (isSidechain exchange)),
       session_id = or_null (sessionId exchange),
       cwd = or_null (x_cwd exchange),
       git_branch = or_null (gitBranch exchange),
       claude_version = or_null (claudeVersion exchange),
       thinking_level = or_null (thinkingLevel exchange),
       thinking_disabled = Some (truthy (thinkingDisabled exchange)),
       thinking_triggers = or_null (thinkingTriggers exchange) \<rparr>"

definition pg_tool_call_row :: "('j, 'ts) engine \<Rightarrow> 'ts \<Rightarrow> 'j ToolCall \<Rightarrow> 'ts ToolCallRow" where
  "pg_tool_call_row E ts toolCall =
     \<lparr> tc_id = t_id toolCall,
       exchange_id = exchangeId toolCall,
       tool_name = toolName toolCall,
       tool_input = map_option (JSON_stringify E) (toolInput toolCall),
       tool_result = or_null (toolResult toolCall),
       is_error = Some (isError toolCall),
       tc_timestamp = ts \<rparr>"

text \<open>
  \<^verbatim>\<open>INSERT ... ON CONFLICT (id) DO UPDATE SET\<close> with every other column assigned from
  \<^verbatim>\<open>EXCLUDED\<close>: the row that holds the key takes the new values in place, or the new row
  is added.
\<close>

definition on_conflict_update :: "('a \<Rightarrow> string) \<Rightarrow> 'a \<Rightarrow> 'a list \<Rightarrow> 'a list" where
  "on_conflict_update key r rows =
     (if key r \<in> key ` set rows then map (\<lambda>x. if key x = key r then r else x) rows
      else rows @ [r])"

definition upsert_exchange ::
  "('j, 'ts) engine \<Rightarrow> int \<Rightarrow> 'j ConversationExchange \<Rightarrow> embedding \<Rightarrow> 'ts pg_db
     \<Rightarrow> error + 'ts pg_db" where
  "upsert_exchange E now exchange emb db =
     (case timestamptz_in E (x_timestamp exchange) of
        None \<Rightarrow> Inl InvalidTimestamp
      | Some ts \<Rightarrow>
          if length emb \<noteq> EMBEDDING_DIM then Inl DimensionMismatch
          else Inr (db\<lparr>pg_exchanges :=
                      on_conflict_update id' (pg_exchange_row ts now exchange emb) (pg_exchanges db)\<rparr>))"

text \<open>The tool call's foreign key \<^verbatim>\<open>REFERENCES exchanges(id)\<close> is checked by the server.\<close>

definition upsert_tool_call :: "('j, 'ts) engine \<Rightarrow> 'j ToolCall \<Rightarrow> 'ts pg_db \<Rightarrow> error + 'ts pg_db" where
  "upsert_tool_call E toolCall db =
     (case timestamptz_in E (t_timestamp toolCall) of
        None \<Rightarrow> Inl InvalidTimestamp
      | Some ts \<Rightarrow>
          if exchangeId toolCall \<notin> id' ` set (pg_exchanges db) then Inl ForeignKeyViolation
          else Inr (db\<lparr>pg_tool_calls :=
                      on_conflict_update tc_id (pg_tool_call_row E ts toolCall) (pg_tool_calls db)\<rparr>))"

fun pg_upsert_tool_calls ::
  "('j, 'ts) engine \<Rightarrow> 'j ToolCall list \<Rightarrow> 'ts pg_db \<Rightarrow> error + 'ts pg_db" where
  "pg_upsert_tool_calls E [] db = Inr db"
| "pg_upsert_tool_calls E (toolCall # rest) db =
     (case upsert_tool_call E toolCall db of
        Inl e \<Rightarrow> Inl e
      | Inr db' \<Rightarrow> pg_upsert_tool_calls E rest db')"

text \<open>The statements between \<^verbatim>\<open>BEGIN\<close> and \<^verbatim>\<open>COMMIT\<close>, run on the transaction's view.\<close>

definition insert_statements ::
  "('j, 'ts) engine \<Rightarrow> int \<Rightarrow> 'j ConversationExchange \<Rightarrow> embedding \<Rightarrow> 'ts pg_db
     \<Rightarrow> error + 'ts pg_db" where
  "insert_statements E now exchange emb db =
     (case upsert_exchange E now exchange emb db of
        Inl e \<Rightarrow> Inl e
      | Inr db1 \<Rightarrow>
          (case toolCalls exchange of
             None \<Rightarrow> Inr db1
           | Some tcs \<Rightarrow> pg_upsert_tool_calls E tcs db1))"

text \<open>
  \<^verbatim>\<open>PostgresProvider.insertExchange\<close>: \<^verbatim>\<open>COMMIT\<close> publishes the transaction's view;
  the \<^verbatim>\<open>catch\<close> block sends \<^verbatim>\<open>ROLLBACK\<close>, which drops it, and throws the error again.
\<close>

definition Postgres_insertExchange ::
  "('j, 'ts) engine \<Rightarrow> int \<Rightarrow> 'ts PostgresProvider \<Rightarrow> 'j ConversationExchange \<Rightarrow> embedding
     \<Rightarrow> error option \<times> 'ts PostgresProvider" where
  "Postgres_insertExchange E now P exchange emb =
     (case P of
        None \<Rightarrow> (Some NotInitialized, None)
      | Some db \<Rightarrow>
          (case insert_statements E now exchange emb db of
             Inr db' \<Rightarrow> (None, Some db')
           | Inl e \<Rightarrow> (Some e, Some db)))"

text \<open>
  \<^verbatim>\<open>PostgresProvider.deleteExchange\<close>: one \<^verbatim>\<open>DELETE\<close>; the key's \<^verbatim>\<open>ON DELETE CASCADE\<close>
  deletes the tool calls of a deleted row.
\<close>

definition Postgres_deleteExchange ::
  "'ts PostgresProvider \<Rightarrow> string \<Rightarrow> error option \<times> 'ts PostgresProvider" where
  "Postgres_deleteExchange P i =
     (case P of
        None \<Rightarrow> (Some NotInitialized, None)
      | Some db \<Rightarrow>
          (None, Some (if i \<in> id' ` set (pg_exchanges db)
                       then db\<lparr>pg_exchanges := filter (\<lambda>e. id' e \<noteq> i) (pg_exchanges db),
                               pg_tool_calls := filter (\<lambda>t. exchange_id t \<noteq> i) (pg_tool_calls db)\<rparr>
                       else db)))"

subsection \<open>Search on the server backend\<close>

text \<open>
  \<^verbatim>\<open>after\<close> and \<^verbatim>\<open>before\<close> are statement parameters compared with the \<^verbatim>\<open>TIMESTAMPTZ\<close>
  column, so the server converts them; \<open>None\<close> is an option that adds no condition.
\<close>

definition pg_bound :: "('j, 'ts) engine \<Rightarrow> string option \<Rightarrow> error + 'ts option" where
  "pg_bound E v =
     (case v of
        None \<Rightarrow> Inr None
      | Some s \<Rightarrow>
          if s = [] then Inr None
          else (case timestamptz_in E s of None \<Rightarrow> Inl InvalidTimestamp | Some t \<Rightarrow> Inr (Some t)))"

definition pg_time_clause :: "('ts::linorder) option \<Rightarrow> 'ts option \<Rightarrow> 'ts ExchangeRow \<Rightarrow> bool" where
  "pg_time_clause a b e =
     ((case a of None \<Rightarrow> True | Some t \<Rightarrow> t \<le> timestamp e) \<and>
      (case b of None \<Rightarrow> True | Some t \<Rightarrow> timestamp e \<le> t))"

text \<open>
  \<^verbatim>\<open>PostgresProvider.searchByVector\<close>: the conditions select, the distance orders, the
  limit cuts. The ranking is the exact one of the statement.
\<close>

definition Postgres_searchByVector ::
  "('j, 'ts::linorder) engine \<Rightarrow> 'ts PostgresProvider \<Rightarrow> embedding \<Rightarrow> SearchOptions
     \<Rightarrow> error + ('ts ExchangeRow \<times> real) list" where
  "Postgres_searchByVector E P q opts =
     (case P of
        None \<Rightarrow> Inl NotInitialized
      | Some db \<Rightarrow>
          (case pg_bound E (after opts) of
             Inl e \<Rightarrow> Inl e
           | Inr a \<Rightarrow>
               (case pg_bound E (before opts) of
                  Inl e \<Rightarrow> Inl e
                | Inr b \<Rightarrow>
                    if length q \<noteq> EMBEDDING_DIM then Inl DimensionMismatch
                    else if limit_or_default opts < 0 then Inl NegativeLimit
                    else
                      let rows = filter (\<lambda>e. embedding e \<noteq> None \<and> pg_time_clause a b e)
                                   (pg_exchanges db)
                      in Inr (take (nat (limit_or_default opts))
                               (sort_key snd
                                 (map (\<lambda>e. (e, distance (the (embedding e)) q)) rows))))))"

text \<open>\<^verbatim>\<open>PostgresProvider.searchByText\<close>.\<close>

definition Postgres_searchByText ::
  "('j, 'ts::linorder) engine \<Rightarrow> 'ts PostgresProvider \<Rightarrow> string \<Rightarrow> SearchOptions
     \<Rightarrow> error + ('ts ExchangeRow \<times> real) list" where
  "Postgres_searchByText E P query opts =
     (case P of
        None \<Rightarrow> Inl NotInitialized
      | Some db \<Rightarrow>
          (case pg_bound E (after opts) of
             Inl e \<Rightarrow> Inl e
           | Inr a \<Rightarrow>
               (case pg_bound E (before opts) of
                  Inl e \<Rightarrow> Inl e
                | Inr b \<Rightarrow>
                    if limit_or_default opts < 0 then Inl NegativeLimit
                    else
                      let hits = filter (\<lambda>e. (ILIKE (user_message e) (likePattern query) \<or>
                                               ILIKE (assistant_message e) (likePattern query)) \<and>
                                              pg_time_clause a b e) (pg_exchanges db)
                      in Inr (map (\<lambda>e. (e, 0))
                               (take (nat (limit_or_default opts))
                                 (order_by_timestamp_desc hits))))))"

text \<open>
  \<^verbatim>\<open>PostgresProvider.getStats\<close>, its counts and the list of archive paths (the date range
  and the ten largest projects are left out).
\<close>

record DatabaseStats =
  totalConversations :: int
  totalExchanges :: int
  projectCount :: int
  archivePaths :: "string list"

definition Postgres_getStats :: "'ts PostgresProvider \<Rightarrow> error + DatabaseStats" where
  "Postgres_getStats P =
     (case P of
        None \<Rightarrow> Inl NotInitialized
      | Some db \<Rightarrow>
          Inr \<lparr> totalConversations = int (length (remdups (map archive_path (pg_exchanges db)))),
                totalExchanges = int (length (pg_exchanges db)),
                projectCount = int (length (remdups (map project (pg_exchanges db)))),
                archivePaths = remdups (map archive_path (pg_exchanges db)) \<rparr>)"

section \<open>Migration tool\<close>

text \<open>
  \<^verbatim>\<open>Array.prototype.slice\<close> on integer bounds: a negative bound counts from the end, and
  both bounds are clamped to the array.
\<close>

definition slice :: "'a list \<Rightarrow> int \<Rightarrow> int \<Rightarrow> 'a list" where
  "slice xs from to =
     (let len = int (length xs);
          k = (if from < 0 then max (len + from) 0 else min from len);
          final = (if to < 0 then max (len + to) 0 else min to len)
      in take (nat (final - k)) (drop (nat k) xs))"

text \<open>The object built from a row of \<^verbatim>\<open>tool_calls\<close>; \<^verbatim>\<open>JSON.parse\<close> may throw.\<close>

definition toolCall_of_row :: "('j, 'ts) engine \<Rightarrow> string ToolCallRow \<Rightarrow> error + 'j ToolCall" where
  "toolCall_of_row E tc =
     (case (case tool_input tc of
              None \<Rightarrow> Inr None
            | Some s \<Rightarrow>
                if s = [] then Inr None
                else (case JSON_parse E s of None \<Rightarrow> Inl JsonSyntaxError | Some j \<Rightarrow> Inr (Some j))) of
        Inl e \<Rightarrow> Inl e
      | Inr input \<Rightarrow>
          Inr \<lparr> t_id = tc_id tc,
                exchangeId = exchange_id tc,
                toolName = tool_name tc,
                toolInput = input,
                toolResult = or_null (tool_result tc),
                isError = truthy (is_error tc),
                t_timestamp = tc_timestamp tc \<rparr>)"

fun toolCalls_of_rows :: "('j, 'ts) engine \<Rightarrow> string ToolCallRow list \<Rightarrow> error + 'j ToolCall list" where
  "toolCalls_of_rows E [] = Inr []"
| "toolCalls_of_rows E (tc # rest) =
     (case toolCall_of_row E tc of
        Inl e \<Rightarrow> Inl e
      | Inr t \<Rightarrow>
          (case toolCalls_of_rows E rest of
             Inl e \<Rightarrow> Inl e
           | Inr ts \<Rightarrow> Inr (t # ts)))"

definition exchange_of_row :: "string ExchangeRow \<Rightarrow> 'j ToolCall list \<Rightarrow> 'j ConversationExchange" where
  "exchange_of_row row tcs =
     \<lparr> x_id = id' row,
       x_project = project row,
       x_timestamp = timestamp row,
       userMessage = user_message row,
       assistantMessage = assistant_message row,
       archivePath = archive_path row,
       lineStart = line_start row,
       lineEnd = line_end row,
       parentUuid = or_null (parent_uuid row),
       isSidechain = Some (truthy (is_sidechain row)),
       sessionId = or_null (session_id row),
       x_cwd = or_null (cwd row),
       gitBranch = or_null (git_branch row),
       claudeVersion = or_null (claude_version row),
       thinkingLevel = or_null (thinking_level row),
       thinkingDisabled = Some (truthy (thinking_disabled row)),
       thinkingTriggers = or_null (thinking_triggers row),
       toolCalls = (if tcs = [] then None else Some tcs) \<rparr>"

text \<open>
  The three counters of the run, the server provider, and the number of calls of
  \<^verbatim>\<open>insertExchange\<close> so far: the \<open>n\<close>-th call reads the clock as \<open>clock n\<close>.
\<close>

record 'ts run =
  processed :: int
  skipped :: int
  errors :: int
  pgProvider :: "'ts PostgresProvider"
  inserts :: nat

text \<open>What the run prints, without the percentage (a floating-point quotient).\<close>

datatype log_line =
    Skipping string
  | ErrorMigrating string error
  | Progress int int int int int

text \<open>
  The body of the inner loop: the \<^verbatim>\<open>try\<close> block for one row and its \<^verbatim>\<open>catch\<close>. The
  embedding read from the vector table is passed on as it is.
\<close>

definition migrate_row ::
  "('j, 'ts) engine \<Rightarrow> (nat \<Rightarrow> int) \<Rightarrow> bool \<Rightarrow> sqlite_db \<Rightarrow> string ExchangeRow
     \<Rightarrow> 'ts run \<times> log_line list \<Rightarrow> 'ts run \<times> log_line list" where
  "migrate_row E clock dry sdb row st =
     (case st of (m, out) \<Rightarrow>
        (case find (\<lambda>v. fst v = id' row) (vec_exchanges sdb) of
           None \<Rightarrow> (m\<lparr>skipped := skipped m + 1\<rparr>, out @ [Skipping (id' row)])
         | Some vectorRow \<Rightarrow>
             (case toolCalls_of_rows E (filter (\<lambda>t. exchange_id t = id' row) (tool_calls sdb)) of
                Inl e \<Rightarrow> (m\<lparr>errors := errors m + 1\<rparr>, out @ [ErrorMigrating (id' row) e])
              | Inr tcs \<Rightarrow>
                  if dry then (m\<lparr>processed := processed m + 1\<rparr>, out)
                  else
                    (case Postgres_insertExchange E (clock (inserts m)) (pgProvider m)
                            (exchange_of_row row tcs) (snd vectorRow) of
                       (None, P') \<Rightarrow>
                         (m\<lparr>processed := processed m + 1, pgProvider := P',
                            inserts := Suc (inserts m)\<rparr>, out)
                     | (Some e, P') \<Rightarrow>
                         (m\<lparr>errors := errors m + 1, pgProvider := P',
                            inserts := Suc (inserts m)\<rparr>,
                          out @ [ErrorMigrating (id' row) e])))))"

text \<open>
  The outer loop \<^verbatim>\<open>for (let i = 0; i < allExchanges.length; i += batchSize)\<close>. Nothing in
  the code makes \<^verbatim>\<open>batchSize\<close> positive, so the loop need not end: not returning is
  \<open>None\<close>.
\<close>

partial_function (option) migrate_batches ::
  "('j, 'ts) engine \<Rightarrow> (nat \<Rightarrow> int) \<Rightarrow> bool \<Rightarrow> sqlite_db \<Rightarrow> int \<Rightarrow> int \<Rightarrow> string ExchangeRow list
     \<Rightarrow> int \<Rightarrow> 'ts run \<times> log_line list \<Rightarrow> ('ts run \<times> log_line list) option" where
  "migrate_batches E clock dry sdb batchSize totalRows allExchanges i st =
     (if i < int (length allExchanges) then
        (let batch = slice allExchanges i (i + batchSize);
             st' = fold (migrate_row E clock dry sdb) batch st
         in migrate_batches E clock dry sdb batchSize totalRows allExchanges (i + batchSize)
              (fst st', snd st' @ [Progress (i + int (length batch)) totalRows
                                     (processed (fst st')) (skipped (fst st')) (errors (fst st'))]))
      else Some st)"

record migrate_options =
  batchSize :: "int option"
  dryRun :: "bool option"

record 'ts report =
  Migrated :: int
  Skipped :: int
  Errors :: int
  target :: "'ts pg_db"
  console :: "log_line list"

text \<open>\<^verbatim>\<open>const { batchSize = 100, dryRun = false, sqlitePath } = options\<close>.\<close>

definition batchSize_of :: "migrate_options \<Rightarrow> int" where
  "batchSize_of options = (case batchSize options of None \<Rightarrow> 100 | Some n \<Rightarrow> n)"

definition dryRun_of :: "migrate_options \<Rightarrow> bool" where
  "dryRun_of options = (case dryRun options of None \<Rightarrow> False | Some d \<Rightarrow> d)"

text \<open>
  \<^verbatim>\<open>migrateToPostgres\<close>. \<open>file\<close> is what the path of the embedded store holds (\<open>None\<close>
  when \<^verbatim>\<open>fs.existsSync\<close> is false), \<open>server\<close> the database behind the URL. The report is
  the final tally, the server's tables after \<^verbatim>\<open>close\<close>, and the lines printed by the loops.
\<close>

definition migrateToPostgres ::
  "('j, 'ts) engine \<Rightarrow> (nat \<Rightarrow> int) \<Rightarrow> sqlite_db option \<Rightarrow> 'ts pg_db \<Rightarrow> migrate_options
     \<Rightarrow> (error + 'ts report) option" where
  "migrateToPostgres E clock file server options =
     (case file of
        None \<Rightarrow> Some (Inl DatabaseNotFound)
      | Some sdb \<Rightarrow>
          (let m0 = \<lparr> processed = 0, skipped = 0, errors = 0,
                       pgProvider = (if dryRun_of options then None else Some server),
                       inserts = 0 \<rparr>;
               totalRows = int (length (exchanges sdb));
               allExchanges = sort_key timestamp (exchanges sdb)
           in case migrate_batches E clock (dryRun_of options) sdb (batchSize_of options)
                     totalRows allExchanges 0 (m0, []) of
                None \<Rightarrow> None
              | Some (m, out) \<Rightarrow>
                  Some (Inr \<lparr> Migrated = processed m, Skipped = skipped m, Errors = errors m,
                              target = (case pgProvider m of None \<Rightarrow> server | Some db \<Rightarrow> db),
                              console = out \<rparr>)))"

text \<open>\<^verbatim>\<open>verifyMigration\<close>: the value returned and the verdict printed.\<close>

datatype verdict = Passed | Failed int

definition verifyMigration :: "sqlite_db option \<Rightarrow> 'ts pg_db \<Rightarrow> error + bool \<times> verdict" where
  "verifyMigration file server =
     (case file of
        None \<Rightarrow> Inl DatabaseNotFound
      | Some sdb \<Rightarrow>
          (let sqliteExchanges = int (length (exchanges sdb))
           in case Postgres_getStats (Some server) of
                Inl e \<Rightarrow> Inl e
              | Inr pgStats \<Rightarrow>
                  (let match = (sqliteExchanges = totalExchanges pgStats)
                   in Inr (match,
                           if match then Passed
                           else Failed (sqliteExchanges - totalExchanges pgStats)))))"

subsection \<open>Observations of a run\<close>

text \<open>
  Not functions of the source, but what the properties of a run are stated with: the loop
  body's effect on the counters alone; one pass of it over all rows in the order read;
  what a run leaves behind (the tally and the server's tables); what the server's
  statistics show afterwards beside the tally; and the same for one pass.
\<close>

definition row_step ::
  "('j, 'ts) engine \<Rightarrow> (nat \<Rightarrow> int) \<Rightarrow> bool \<Rightarrow> sqlite_db \<Rightarrow> string ExchangeRow \<Rightarrow> 'ts run \<Rightarrow> 'ts run" where
  "row_step E clock dry sdb row m = fst (migrate_row E clock dry sdb row (m, []))"

definition single_pass ::
  "('j, 'ts) engine \<Rightarrow> (nat \<Rightarrow> int) \<Rightarrow> bool \<Rightarrow> sqlite_db \<Rightarrow> 'ts pg_db \<Rightarrow> 'ts run" where
  "single_pass E clock dry sdb server =
     fold (row_step E clock dry sdb) (sort_key timestamp (exchanges sdb))
       \<lparr> processed = 0, skipped = 0, errors = 0,
         pgProvider = (if dry then None else Some server), inserts = 0 \<rparr>"

definition outcome :: "error + 'ts report \<Rightarrow> error + int \<times> int \<times> int \<times> 'ts pg_db" where
  "outcome r = map_sum (\<lambda>e. e) (\<lambda>x. (Migrated x, Skipped x, Errors x, target x)) r"

definition observed :: "error + 'ts report \<Rightarrow> error + int \<times> int \<times> int \<times> int" where
  "observed r =
     (case r of
        Inl e \<Rightarrow> Inl e
      | Inr x \<Rightarrow>
          (case Postgres_getStats (Some (target x)) of
             Inl e \<Rightarrow> Inl e
           | Inr st \<Rightarrow> Inr (Migrated x, Skipped x, Errors x, totalExchanges st)))"

definition seen ::
  "('j, 'ts) engine \<Rightarrow> (nat \<Rightarrow> int) \<Rightarrow> sqlite_db \<Rightarrow> 'ts pg_db \<Rightarrow> migrate_options
     \<Rightarrow> error + int \<times> int \<times> int \<times> int" where
  "seen E clock sdb server opts =
     observed (Inr \<lparr> Migrated = processed (single_pass E clock (dryRun_of opts) sdb server),
                      Skipped = skipped (single_pass E clock (dryRun_of opts) sdb server),
                      Errors = errors (single_pass E clock (dryRun_of opts) sdb server),
                      target = (case pgProvider (single_pass E clock (dryRun_of opts) sdb server) of
                                  None \<Rightarrow> server | Some db \<Rightarrow> db),
                      console = [] \<rparr>)"

section \<open>Example data\<close>

text \<open>
  Rows and objects in the manner of the repository's tests: an exchange row, a tool-call
  row, the two objects, an embedding of the table's width, and an engine whose JSON values
  are their texts and whose instants are ISO texts in their string order; as the server
  does, it rejects the empty text as a timestamp.
\<close>

definition test_row :: "string \<Rightarrow> 'ts \<Rightarrow> string \<Rightarrow> string \<Rightarrow> 'ts ExchangeRow" where
  "test_row i ts u a =
     \<lparr> id' = i, project = ''project-a'', timestamp = ts, user_message = u,
       assistant_message = a, archive_path = ''/test/conv.jsonl'', line_start = 1,
       line_end = 2, embedding = None, last_indexed = None, parent_uuid = None,
       is_sidechain = Some False, session_id = None, cwd = None, git_branch = None,
       claude_version = None, thinking_level = None, thinking_disabled = None,
       thinking_triggers = None \<rparr>"

definition test_tool_row :: "string \<Rightarrow> string \<Rightarrow> 'ts \<Rightarrow> 'ts ToolCallRow" where
  "test_tool_row i x ts =
     \<lparr> tc_id = i, exchange_id = x, tool_name = ''Read'', tool_input = None,
       tool_result = None, is_error = Some False, tc_timestamp = ts \<rparr>"

definition test_tool_call :: "string \<Rightarrow> string \<Rightarrow> string ToolCall" where
  "test_tool_call i x =
     \<lparr> t_id = i, exchangeId = x, toolName = ''Read'', toolInput = None,
       toolResult = None, isError = False, t_timestamp = ''2025-01-01T12:00:01Z'' \<rparr>"

definition test_exchange :: "string \<Rightarrow> string \<Rightarrow> string \<Rightarrow> string ToolCall list option \<Rightarrow> string ConversationExchange" where
  "test_exchange i ts u tcs =
     \<lparr> x_id = i, x_project = ''project-a'', x_timestamp = ts, userMessage = u,
       assistantMessage = ''Response'', archivePath = ''/test/conv.jsonl'', lineStart = 1,
       lineEnd = 2, parentUuid = None, isSidechain = None, sessionId = None, x_cwd = None,
       gitBranch = None, claudeVersion = None, thinkingLevel = None,
       thinkingDisabled = None, thinkingTriggers = None, toolCalls = tcs \<rparr>"

definition test_engine :: "(string, string) engine" where
  "test_engine =
     \<lparr> JSON_parse = Some, JSON_stringify = (\<lambda>j. j),
       timestamptz_in = (\<lambda>s. if s = [] then None else Some s) \<rparr>"

definition createEmbedding :: "real \<Rightarrow> embedding" where
  "createEmbedding x = x # replicate 383 0"

text \<open>An embedded store with one exchange, its vector entry and one tool call of it.\<close>

definition orphan_store :: "bool \<Rightarrow> sqlite_db" where
  "orphan_store fk =
     \<lparr> exchanges = [test_row ''test-cascade'' ''2025-01-01T12:00:00Z'' ''Test'' ''Response''],
       tool_calls = [test_tool_row ''tool-cascade'' ''test-cascade'' ''2025-01-01T12:00:01Z''],
       vec_exchanges = [(''test-cascade'', createEmbedding 0.1)],
       foreign_keys = fk \<rparr>"

text \<open>
  Stores and objects for the writes: empty stores, an exchange written twice under one
  identifier, an exchange whose second tool call names an exchange that does not exist,
  and a reindexed exchange that carries a new tool call in place of the stored one.
\<close>

definition failing_exchange :: "string ConversationExchange" where
  "failing_exchange =
     test_exchange ''e1'' ''2025-01-01T12:00:00Z'' ''Test''
       (Some [test_tool_call ''t1'' ''e1'', test_tool_call ''t2'' ''other''])"

definition empty_pg :: "string pg_db" where
  "empty_pg = \<lparr> pg_exchanges = [], pg_tool_calls = [] \<rparr>"

definition empty_sqlite :: sqlite_db where
  "empty_sqlite = \<lparr> exchanges = [], tool_calls = [], vec_exchanges = [], foreign_keys = True \<rparr>"

definition original :: "string ConversationExchange" where
  "original = test_exchange ''test-id-upsert'' ''2025-01-01T12:00:00Z'' ''Original message'' None"

definition updated :: "string ConversationExchange" where
  "updated = test_exchange ''test-id-upsert'' ''2025-01-02T08:30:00Z'' ''Updated message'' None"

definition sqlite_with :: "string ConversationExchange \<Rightarrow> int \<Rightarrow> embedding \<Rightarrow> sqlite_db" where
  "sqlite_with exchange now emb =
     \<lparr> exchanges = [sqlite_exchange_row now exchange], tool_calls = [],
       vec_exchanges = [(x_id exchange, emb)], foreign_keys = True \<rparr>"

definition pg_with :: "string ConversationExchange \<Rightarrow> int \<Rightarrow> embedding \<Rightarrow> string pg_db" where
  "pg_with exchange now emb =
     \<lparr> pg_exchanges = [pg_exchange_row (x_timestamp exchange) now exchange emb],
       pg_tool_calls = [] \<rparr>"

definition reindexed :: "string ConversationExchange" where
  "reindexed =
     test_exchange ''test-cascade'' ''2025-01-01T12:00:00Z'' ''Test''
       (Some [test_tool_call ''tool-new'' ''test-cascade''])"

definition sqlite_reindexed :: sqlite_db where
  "sqlite_reindexed =
     \<lparr> exchanges = [sqlite_exchange_row 5 reindexed],
       tool_calls = [test_tool_row ''tool-cascade'' ''test-cascade'' ''2025-01-01T12:00:01Z'',
                     sqlite_tool_call_row test_engine (test_tool_call ''tool-new'' ''test-cascade'')],
       vec_exchanges = [(''test-cascade'', createEmbedding 0.2)],
       foreign_keys = True \<rparr>"

definition pg_store :: "string pg_db" where
  "pg_store =
     \<lparr> pg_exchanges = [test_row ''test-cascade'' ''2025-01-01T12:00:00Z'' ''Test'' ''Response''],
       pg_tool_calls = [test_tool_row ''tool-cascade'' ''test-cascade'' ''2025-01-01T12:00:01Z''] \<rparr>"

definition pg_reindexed :: "string pg_db" where
  "pg_reindexed =
     \<lparr> pg_exchanges = [pg_exchange_row ''2025-01-01T12:00:00Z'' 5 reindexed (createEmbedding 0.2)],
       pg_tool_calls = [test_tool_row ''tool-cascade'' ''test-cascade'' ''2025-01-01T12:00:01Z'',
                        pg_tool_call_row test_engine ''2025-01-01T12:00:01Z''
                          (test_tool_call ''tool-new'' ''test-cascade'')] \<rparr>"

text \<open>
  Four dated exchanges with embeddings at distances 0, 1, 4 and 9 from the query
  \<open>createEmbedding 0\<close>, in either store, and a search window whose bounds are the
  timestamps of the second and the third.
\<close>

definition dated_rows :: "string ExchangeRow list" where
  "dated_rows =
     [test_row ''vec-dated'' ''2024-06-01T12:00:00Z'' ''Old message'' ''Old response'',
      test_row ''vec-1'' ''2025-01-01T12:00:00Z'' ''First message'' ''Response'',
      test_row ''vec-2'' ''2025-01-31T12:00:00Z'' ''Second message'' ''Response'',
      test_row ''vec-3'' ''2025-02-01T12:00:00Z'' ''Third message'' ''Response'']"

definition dated_store :: sqlite_db where
  "dated_store =
     \<lparr> exchanges = dated_rows, tool_calls = [],
       vec_exchanges = [(''vec-dated'', createEmbedding 0), (''vec-1'', createEmbedding 1),
                        (''vec-2'', createEmbedding 2), (''vec-3'', createEmbedding 3)],
       foreign_keys = True \<rparr>"

definition dated_pg :: "string pg_db" where
  "dated_pg =
     \<lparr> pg_exchanges = map2 (\<lambda>e x. e\<lparr>embedding := Some (createEmbedding x)\<rparr>) dated_rows [0, 1, 2, 3],
       pg_tool_calls = [] \<rparr>"

definition january :: "int \<Rightarrow> SearchOptions" where
  "january n =
     \<lparr> limit = Some n, after = Some ''2025-01-01T12:00:00Z'', before = Some ''2025-01-31T12:00:00Z'' \<rparr>"

text \<open>The three exchanges of the text-search tests, in either store.\<close>

definition docker_rows :: "string ExchangeRow list" where
  "docker_rows =
     [test_row ''text-1'' ''2025-01-01T12:00:00Z'' ''How to use Docker'' ''Docker is a container platform'',
      test_row ''text-2'' ''2025-01-01T12:00:00Z'' ''Python basics'' ''Python is a programming language'',
      test_row ''text-3'' ''2025-01-01T12:00:00Z'' ''Docker compose tutorial'' ''Use docker-compose.yml'']"

definition docker_store :: sqlite_db where
  "docker_store =
     \<lparr> exchanges = docker_rows, tool_calls = [], vec_exchanges = [], foreign_keys = True \<rparr>"

definition docker_pg :: "string pg_db" where
  "docker_pg = \<lparr> pg_exchanges = docker_rows, pg_tool_calls = [] \<rparr>"

definition no_options :: SearchOptions where
  "no_options = \<lparr> limit = None, after = None, before = None \<rparr>"

text \<open>
  Stores for the migration: fifteen exchanges with embeddings, as in the batch test; one
  exchange with an embedding and one without; one exchange whose timestamp is the empty
  text. The clock counts milliseconds from a fixed instant.
\<close>

definition test_clock :: "nat \<Rightarrow> int" where
  "test_clock n = 1735732800000 + int n"

definition batch_names :: "string list" where
  "batch_names = [''00'', ''01'', ''02'', ''03'', ''04'', ''05'', ''06'', ''07'', ''08'', ''09'',
                  ''10'', ''11'', ''12'', ''13'', ''14'']"

definition batch_store :: sqlite_db where
  "batch_store =
     \<lparr> exchanges = map (\<lambda>n. test_row (''batch-'' @ n) (''2025-01-01T12:'' @ n @ '':00Z'')
                            (''Message '' @ n) (''Response '' @ n)) batch_names,
       tool_calls = [],
       vec_exchanges = map (\<lambda>n. (''batch-'' @ n, createEmbedding 0.1)) batch_names,
       foreign_keys = True \<rparr>"

definition batches_of :: "int \<Rightarrow> migrate_options" where
  "batches_of n = \<lparr> batchSize = Some n, dryRun = None \<rparr>"

definition default_options :: migrate_options where
  "default_options = \<lparr> batchSize = None, dryRun = None \<rparr>"



text \<open>
  The server's tables between the statements of the failing write: after the exchange's
  upsert, and after the upsert of its first tool call.
\<close>

definition after_exchange :: "string pg_db" where
  "after_exchange = pg_with failing_exchange 0 (createEmbedding 0.1)"

definition after_first_tool_call :: "string pg_db" where
  "after_first_tool_call =
     after_exchange\<lparr>pg_tool_calls :=
       [pg_tool_call_row test_engine ''2025-01-01T12:00:01Z'' (test_tool_call ''t1'' ''e1'')]\<rparr>"

section \<open>Properties\<close>

subsection \<open>Upserts on a keyed table\<close>

lemma length_createEmbedding: "length (createEmbedding x) = EMBEDDING_DIM"
  by (simp add: createEmbedding_def EMBEDDING_DIM_def)

lemma absent_key: "k \<notin> key ` set rows \<Longrightarrow> x \<in> set rows \<Longrightarrow> key x \<noteq> k"
  by blast

lemma map_key_update:
  "map key (map (\<lambda>x. if key x = key r then r else x) rows) = map key rows"
  by (induction rows) auto

lemma filter_update_other:
  "k \<noteq> key r \<Longrightarrow>
     filter (\<lambda>x. key x = k) (map (\<lambda>x. if key x = key r then r else x) rows) =
     filter (\<lambda>x. key x = k) rows"
  by (induction rows) auto

lemma filter_absent: "k \<notin> key ` set rows \<Longrightarrow> filter (\<lambda>x. key x = k) rows = []"
  by (induction rows) auto

lemma filter_update_same:
  "distinct (map key rows) \<Longrightarrow> key r \<in> key ` set rows \<Longrightarrow>
     filter (\<lambda>x. key x = key r) (map (\<lambda>x. if key x = key r then r else x) rows) = [r]"
proof (induction rows)
  case Nil
  then show ?case by simp
next
  case (Cons a rows)
  show ?case
  proof (cases "key a = key r")
    case True
    with Cons.prems have "key r \<notin> key ` set rows" by auto
    then have "filter (\<lambda>x. key x = key r) rows = []" by (rule filter_absent)
    then have "filter (\<lambda>x. key x = key r) (map (\<lambda>x. if key x = key r then r else x) rows) = []"
      by (induction rows) (auto split: if_splits)
    with True show ?thesis by simp
  next
    case False
    with Cons show ?thesis by auto
  qed
qed

lemma keys_on_conflict_update:
  "key ` set (on_conflict_update key r rows) = insert (key r) (key ` set rows)"
  by (auto simp: on_conflict_update_def)

lemma distinct_on_conflict_update:
  assumes "distinct (map key rows)"
  shows "distinct (map key (on_conflict_update key r rows))"
proof (cases "key r \<in> key ` set rows")
  case True
  then have "map key (on_conflict_update key r rows) = map key rows"
    unfolding on_conflict_update_def using map_key_update [of key r rows] by simp
  with assms show ?thesis by simp
next
  case False
  with assms show ?thesis by (simp add: on_conflict_update_def)
qed

lemma filter_on_conflict_update_same:
  assumes "distinct (map key rows)"
  shows "filter (\<lambda>x. key x = key r) (on_conflict_update key r rows) = [r]"
proof (cases "key r \<in> key ` set rows")
  case False
  then show ?thesis by (simp add: on_conflict_update_def filter_absent)
next
  case True
  with assms show ?thesis by (simp add: on_conflict_update_def filter_update_same)
qed

lemma filter_on_conflict_update_other:
  "k \<noteq> key r \<Longrightarrow>
     filter (\<lambda>x. key x = k) (on_conflict_update key r rows) = filter (\<lambda>x. key x = k) rows"
  by (simp add: on_conflict_update_def filter_update_other)


lemma find_update:
  "find (\<lambda>x. key x = k) (map (\<lambda>x. if key x = key r then r else x) rows) =
     (if k = key r then (if key r \<in> key ` set rows then Some r else None)
      else find (\<lambda>x. key x = k) rows)"
  by (induction rows) auto

lemma find_append_one:
  "find P (rows @ [r]) =
     (case find P rows of Some y \<Rightarrow> Some y | None \<Rightarrow> if P r then Some r else None)"
  by (induction rows) auto

lemma find_absent: "k \<notin> key ` set rows \<Longrightarrow> find (\<lambda>x. key x = k) rows = None"
  by (induction rows) auto

lemma find_on_conflict_update:
  "find (\<lambda>x. key x = k) (on_conflict_update key r rows) =
     (if k = key r then Some r else find (\<lambda>x. key x = k) rows)"
proof (cases "key r \<in> key ` set rows")
  case True
  then show ?thesis by (simp add: on_conflict_update_def find_update)
next
  case False
  then show ?thesis
    by (simp add: on_conflict_update_def find_append_one find_absent split: option.splits)
qed

lemma find_replace:
  "find (\<lambda>x. key x = k) (filter (\<lambda>x. key x \<noteq> key r) rows @ [r]) =
     (if k = key r then Some r else find (\<lambda>x. key x = k) rows)"
  by (induction rows) auto

lemma filter_replace_same:
  "filter (\<lambda>x. key x = key r) (filter (\<lambda>x. key x \<noteq> key r) rows @ [r]) = [r]"
  by (induction rows) auto

subsection \<open>Deleting an exchange\<close>

text \<open>
  On the server backend the cascade leaves no tool call of the deleted exchange, in every
  state that satisfies the table's foreign key.
\<close>

lemma Postgres_deleteExchange_cascades:
  assumes "exchange_id ` set (pg_tool_calls db) \<subseteq> id' ` set (pg_exchanges db)"
  shows "\<exists>db'. Postgres_deleteExchange (Some db) i = (None, Some db') \<and>
               i \<notin> id' ` set (pg_exchanges db') \<and> i \<notin> exchange_id ` set (pg_tool_calls db')"
  using assms by (auto simp: Postgres_deleteExchange_def)

text \<open>
  C2. After \<^verbatim>\<open>deleteExchange\<close> no tool call of the exchange should remain, and the exchange
  row and its vector entry should be gone, on either backend. The embedded backend does
  not do this. On the store with the exchange \<^verbatim>\<open>test-cascade\<close> and its tool call
  \<^verbatim>\<open>tool-cascade\<close>: without foreign-key enforcement the call completes and the tool call
  stays, owned by an exchange that is gone; with enforcement the vector entry is deleted,
  the second statement fails, and the exchange row and the tool call both stay.
\<close>

theorem Sqlite_deleteExchange_orphans:
  "Sqlite_deleteExchange (Some (orphan_store False)) ''test-cascade'' =
     (None, Some ((orphan_store False)\<lparr>exchanges := [], vec_exchanges := []\<rparr>)) \<and>
   Sqlite_deleteExchange (Some (orphan_store True)) ''test-cascade'' =
     (Some ForeignKeyViolation, Some ((orphan_store True)\<lparr>vec_exchanges := []\<rparr>)) \<and>
   map exchange_id (tool_calls (orphan_store False)) = [''test-cascade''] \<and>
   map exchange_id (tool_calls (orphan_store True)) = [''test-cascade'']"
  by (simp add: Sqlite_deleteExchange_def delete_vec_def delete_exchange_def orphan_store_def
      test_row_def test_tool_row_def)

subsection \<open>Verification of a migration\<close>

text \<open>
  C7. \<^verbatim>\<open>verifyMigration\<close> returns true exactly when the embedded store's number of
  exchange rows equals the \<^verbatim>\<open>totalExchanges\<close> of the server's statistics, and otherwise
  returns false and reports the embedded count minus the server count.
\<close>

theorem verifyMigration_counts:
  "\<exists>st. Postgres_getStats (Some server) = Inr st \<and>
        verifyMigration (Some sdb) server =
          Inr (int (length (exchanges sdb)) = totalExchanges st,
               if int (length (exchanges sdb)) = totalExchanges st then Passed
               else Failed (int (length (exchanges sdb)) - totalExchanges st))"
  by (simp add: verifyMigration_def Postgres_getStats_def Let_def)

subsection \<open>The statements of a write\<close>

lemma tc_id_pg_tool_call_row: "tc_id (pg_tool_call_row E ts t) = t_id t"
  by (simp add: pg_tool_call_row_def)

lemma id_pg_exchange_row: "id' (pg_exchange_row ts now exchange emb) = x_id exchange"
  by (simp add: pg_exchange_row_def)

lemma upsert_tool_call_Inr:
  assumes "upsert_tool_call E t db = Inr db'"
  obtains ts where "timestamptz_in E (t_timestamp t) = Some ts"
    and "exchangeId t \<in> id' ` set (pg_exchanges db)"
    and "db' = db\<lparr>pg_tool_calls :=
                 on_conflict_update tc_id (pg_tool_call_row E ts t) (pg_tool_calls db)\<rparr>"
  using assms by (auto simp: upsert_tool_call_def split: option.splits if_splits)

lemma upsert_exchange_Inr:
  assumes "upsert_exchange E now exchange emb db = Inr db'"
  obtains ts where "timestamptz_in E (x_timestamp exchange) = Some ts"
    and "length emb = EMBEDDING_DIM"
    and "db' = db\<lparr>pg_exchanges :=
                 on_conflict_update id' (pg_exchange_row ts now exchange emb) (pg_exchanges db)\<rparr>"
  using assms by (auto simp: upsert_exchange_def split: option.splits if_splits)

lemma upsert_tool_call_exchanges:
  assumes "upsert_tool_call E t db = Inr db'"
  shows "pg_exchanges db' = pg_exchanges db"
  using assms by (rule upsert_tool_call_Inr) simp

lemma upsert_tool_call_keys:
  assumes "upsert_tool_call E t db = Inr db'"
  shows "tc_id ` set (pg_tool_calls db') = insert (t_id t) (tc_id ` set (pg_tool_calls db))"
proof -
  from assms obtain ts where
    "db' = db\<lparr>pg_tool_calls :=
             on_conflict_update tc_id (pg_tool_call_row E ts t) (pg_tool_calls db)\<rparr>"
    by (rule upsert_tool_call_Inr)
  then show ?thesis
    by (simp add: keys_on_conflict_update tc_id_pg_tool_call_row)
qed

lemma pg_upsert_tool_calls_exchanges:
  "pg_upsert_tool_calls E tcs db = Inr db' \<Longrightarrow> pg_exchanges db' = pg_exchanges db"
proof (induction tcs arbitrary: db)
  case Nil
  then show ?case by simp
next
  case (Cons t tcs)
  then show ?case
    by (auto split: sum.splits dest: upsert_tool_call_exchanges)
qed

lemma pg_upsert_tool_calls_keys:
  "pg_upsert_tool_calls E tcs db = Inr db' \<Longrightarrow>
     tc_id ` set (pg_tool_calls db') = t_id ` set tcs \<union> tc_id ` set (pg_tool_calls db)"
proof (induction tcs arbitrary: db)
  case Nil
  then show ?case by simp
next
  case (Cons t tcs)
  from Cons.prems obtain db1 where a: "upsert_tool_call E t db = Inr db1"
    and b: "pg_upsert_tool_calls E tcs db1 = Inr db'"
    by (auto split: sum.splits)
  from Cons.IH [OF b] upsert_tool_call_keys [OF a] show ?case by auto
qed

lemma upsert_exchange_keys:
  assumes "upsert_exchange E now exchange emb db = Inr db'"
  shows "id' ` set (pg_exchanges db') = insert (x_id exchange) (id' ` set (pg_exchanges db))"
proof -
  from assms obtain ts where
    "db' = db\<lparr>pg_exchanges :=
             on_conflict_update id' (pg_exchange_row ts now exchange emb) (pg_exchanges db)\<rparr>"
    by (rule upsert_exchange_Inr)
  then show ?thesis
    by (simp add: keys_on_conflict_update id_pg_exchange_row)
qed

lemma upsert_exchange_tool_calls:
  assumes "upsert_exchange E now exchange emb db = Inr db'"
  shows "pg_tool_calls db' = pg_tool_calls db"
  using assms by (rule upsert_exchange_Inr) simp

lemma insert_statements_keys:
  assumes "insert_statements E now exchange emb db = Inr db'"
  shows "id' ` set (pg_exchanges db') = insert (x_id exchange) (id' ` set (pg_exchanges db))"
    and "tc_id ` set (pg_tool_calls db') =
           t_id ` set (carried exchange) \<union> tc_id ` set (pg_tool_calls db)"
proof -
  from assms obtain db1 where a: "upsert_exchange E now exchange emb db = Inr db1"
    and b: "pg_upsert_tool_calls E (carried exchange) db1 = Inr db'"
    by (auto simp: insert_statements_def carried_def split: sum.splits option.splits)
  from pg_upsert_tool_calls_exchanges [OF b] upsert_exchange_keys [OF a]
  show "id' ` set (pg_exchanges db') = insert (x_id exchange) (id' ` set (pg_exchanges db))"
    by simp
  from pg_upsert_tool_calls_keys [OF b] upsert_exchange_tool_calls [OF a]
  show "tc_id ` set (pg_tool_calls db') =
           t_id ` set (carried exchange) \<union> tc_id ` set (pg_tool_calls db)"
    by simp
qed

lemma tc_id_sqlite_tool_call_row: "tc_id (sqlite_tool_call_row E t) = t_id t"
  by (simp add: sqlite_tool_call_row_def)

lemma id_sqlite_exchange_row: "id' (sqlite_exchange_row now exchange) = x_id exchange"
  by (simp add: sqlite_exchange_row_def)

lemma replace_tool_call_Inr:
  assumes "replace_tool_call t s = Inr s'"
  shows "s' = s\<lparr>tool_calls := filter (\<lambda>u. tc_id u \<noteq> tc_id t) (tool_calls s) @ [t]\<rparr>"
  using assms by (auto simp: replace_tool_call_def split: if_splits)

lemma sqlite_insert_tool_calls_other_tables:
  "sqlite_insert_tool_calls E tcs s = (r, s') \<Longrightarrow>
     exchanges s' = exchanges s \<and> vec_exchanges s' = vec_exchanges s"
proof (induction tcs arbitrary: s)
  case Nil
  then show ?case by simp
next
  case (Cons t tcs)
  show ?case
  proof (cases "replace_tool_call (sqlite_tool_call_row E t) s")
    case (Inl e)
    with Cons.prems show ?thesis by simp
  next
    case (Inr s1)
    with Cons.prems have "sqlite_insert_tool_calls E tcs s1 = (r, s')" by simp
    from Cons.IH [OF this] replace_tool_call_Inr [OF Inr] show ?thesis by simp
  qed
qed

lemma sqlite_insert_tool_calls_find:
  "sqlite_insert_tool_calls E tcs s = (None, s') \<Longrightarrow>
     find (\<lambda>t. tc_id t = k) (tool_calls s') =
       (case find (\<lambda>t. t_id t = k) (rev tcs) of
          Some t \<Rightarrow> Some (sqlite_tool_call_row E t)
        | None \<Rightarrow> find (\<lambda>t. tc_id t = k) (tool_calls s))"
proof (induction tcs arbitrary: s)
  case Nil
  then show ?case by simp
next
  case (Cons t tcs)
  show ?case
  proof (cases "replace_tool_call (sqlite_tool_call_row E t) s")
    case (Inl e)
    with Cons.prems show ?thesis by simp
  next
    case (Inr s1)
    with Cons.prems have rest: "sqlite_insert_tool_calls E tcs s1 = (None, s')" by simp
    have "find (\<lambda>u. tc_id u = k) (tool_calls s1) =
            (if k = t_id t then Some (sqlite_tool_call_row E t)
             else find (\<lambda>u. tc_id u = k) (tool_calls s))"
      using replace_tool_call_Inr [OF Inr]
        find_replace [of tc_id k "sqlite_tool_call_row E t" "tool_calls s"]
      by (simp add: tc_id_sqlite_tool_call_row)
    with Cons.IH [OF rest] show ?thesis
      by (auto simp: find_append_one split: option.splits)
  qed
qed

lemma Sqlite_insertExchange_None:
  assumes "Sqlite_insertExchange E now (Some s) exchange emb = (None, Some s')"
  obtains s3 where
    "insert_vec (x_id exchange) emb
       (delete_vec (x_id exchange) (replace_exchange (sqlite_exchange_row now exchange) s)) = Inr s3"
    and "sqlite_insert_tool_calls E (carried exchange) s3 = (None, s')"
  using assms
  by (auto simp: Sqlite_insertExchange_def carried_def Let_def
      split: sum.splits option.splits prod.splits)

lemma insert_vec_Inr:
  assumes "insert_vec i v s = Inr s'"
  shows "s' = s\<lparr>vec_exchanges := vec_exchanges s @ [(i, v)]\<rparr>"
  using assms by (auto simp: insert_vec_def split: if_splits)

lemma Sqlite_insertExchange_tool_calls:
  assumes "Sqlite_insertExchange E now (Some s) exchange emb = (None, Some s')"
  shows "find (\<lambda>t. tc_id t = k) (tool_calls s') =
       (case find (\<lambda>t. t_id t = k) (rev (carried exchange)) of
          Some t \<Rightarrow> Some (sqlite_tool_call_row E t)
        | None \<Rightarrow> find (\<lambda>t. tc_id t = k) (tool_calls s))"
proof -
  from assms obtain s3 where
    a: "insert_vec (x_id exchange) emb
       (delete_vec (x_id exchange) (replace_exchange (sqlite_exchange_row now exchange) s)) = Inr s3"
    and b: "sqlite_insert_tool_calls E (carried exchange) s3 = (None, s')"
    by (rule Sqlite_insertExchange_None)
  from insert_vec_Inr [OF a] have "tool_calls s3 = tool_calls s"
    by (simp add: delete_vec_def replace_exchange_def)
  with sqlite_insert_tool_calls_find [OF b, of k] show ?thesis by (simp split: option.splits)
qed

lemma Sqlite_insertExchange_row:
  assumes "Sqlite_insertExchange E now (Some s) exchange emb = (None, Some s')"
  shows "filter (\<lambda>e. id' e = x_id exchange) (exchanges s') = [sqlite_exchange_row now exchange]"
    and "filter (\<lambda>v. fst v = x_id exchange) (vec_exchanges s') = [(x_id exchange, emb)]"
proof -
  from assms obtain s3 where
    a: "insert_vec (x_id exchange) emb
       (delete_vec (x_id exchange) (replace_exchange (sqlite_exchange_row now exchange) s)) = Inr s3"
    and b: "sqlite_insert_tool_calls E (carried exchange) s3 = (None, s')"
    by (rule Sqlite_insertExchange_None)
  from sqlite_insert_tool_calls_other_tables [OF b]
  have c: "exchanges s' = exchanges s3" "vec_exchanges s' = vec_exchanges s3" by simp_all
  have "exchanges s3 =
          filter (\<lambda>e. id' e \<noteq> id' (sqlite_exchange_row now exchange)) (exchanges s)
            @ [sqlite_exchange_row now exchange]"
    using insert_vec_Inr [OF a] by (simp add: delete_vec_def replace_exchange_def)
  then have "filter (\<lambda>e. id' e = id' (sqlite_exchange_row now exchange)) (exchanges s3) =
               [sqlite_exchange_row now exchange]"
    by (simp only: filter_replace_same)
  with c show "filter (\<lambda>e. id' e = x_id exchange) (exchanges s') = [sqlite_exchange_row now exchange]"
    by (simp add: id_sqlite_exchange_row)
  have "vec_exchanges s3 =
          filter (\<lambda>v. fst v \<noteq> fst (x_id exchange, emb)) (vec_exchanges s) @ [(x_id exchange, emb)]"
    using insert_vec_Inr [OF a] by (simp add: delete_vec_def replace_exchange_def)
  then have "filter (\<lambda>v. fst v = fst (x_id exchange, emb)) (vec_exchanges s3) = [(x_id exchange, emb)]"
    by (simp only: filter_replace_same)
  with c show "filter (\<lambda>v. fst v = x_id exchange) (vec_exchanges s') = [(x_id exchange, emb)]"
    by simp
qed

lemma pg_upsert_tool_calls_find:
  "pg_upsert_tool_calls E tcs db = Inr db' \<Longrightarrow>
     find (\<lambda>t. tc_id t = k) (pg_tool_calls db') =
       (case find (\<lambda>t. t_id t = k) (rev tcs) of
          Some t \<Rightarrow> map_option (\<lambda>ts. pg_tool_call_row E ts t) (timestamptz_in E (t_timestamp t))
        | None \<Rightarrow> find (\<lambda>t. tc_id t = k) (pg_tool_calls db))"
proof (induction tcs arbitrary: db)
  case Nil
  then show ?case by simp
next
  case (Cons t tcs)
  from Cons.prems obtain db1 where a: "upsert_tool_call E t db = Inr db1"
    and b: "pg_upsert_tool_calls E tcs db1 = Inr db'"
    by (auto split: sum.splits)
  from a obtain ts where ts: "timestamptz_in E (t_timestamp t) = Some ts"
    and db1: "db1 = db\<lparr>pg_tool_calls :=
                 on_conflict_update tc_id (pg_tool_call_row E ts t) (pg_tool_calls db)\<rparr>"
    by (rule upsert_tool_call_Inr)
  have "find (\<lambda>u. tc_id u = k) (pg_tool_calls db1) =
          (if k = t_id t then Some (pg_tool_call_row E ts t)
           else find (\<lambda>u. tc_id u = k) (pg_tool_calls db))"
    using db1 by (simp add: find_on_conflict_update tc_id_pg_tool_call_row)
  with Cons.IH [OF b] ts show ?case
    by (auto simp: find_append_one split: option.splits)
qed

lemma Postgres_insertExchange_None:
  assumes "Postgres_insertExchange E now (Some db) exchange emb = (None, Some db')"
  obtains db1 where "upsert_exchange E now exchange emb db = Inr db1"
    and "pg_upsert_tool_calls E (carried exchange) db1 = Inr db'"
  using assms
  by (auto simp: Postgres_insertExchange_def insert_statements_def carried_def
      split: sum.splits option.splits)

lemma Postgres_insertExchange_tool_calls:
  assumes "Postgres_insertExchange E now (Some db) exchange emb = (None, Some db')"
  shows "find (\<lambda>t. tc_id t = k) (pg_tool_calls db') =
       (case find (\<lambda>t. t_id t = k) (rev (carried exchange)) of
          Some t \<Rightarrow> map_option (\<lambda>ts. pg_tool_call_row E ts t) (timestamptz_in E (t_timestamp t))
        | None \<Rightarrow> find (\<lambda>t. tc_id t = k) (pg_tool_calls db))"
proof -
  from assms obtain db1 where a: "upsert_exchange E now exchange emb db = Inr db1"
    and b: "pg_upsert_tool_calls E (carried exchange) db1 = Inr db'"
    by (rule Postgres_insertExchange_None)
  from pg_upsert_tool_calls_find [OF b, of k] upsert_exchange_tool_calls [OF a]
  show ?thesis by (simp split: option.splits)
qed

lemma Postgres_insertExchange_row:
  assumes "Postgres_insertExchange E now (Some db) exchange emb = (None, Some db')"
    and "distinct (map id' (pg_exchanges db))"
  shows "\<exists>ts. timestamptz_in E (x_timestamp exchange) = Some ts \<and>
           filter (\<lambda>e. id' e = x_id exchange) (pg_exchanges db') =
             [pg_exchange_row ts now exchange emb]"
    and "distinct (map id' (pg_exchanges db'))"
proof -
  from assms(1) obtain db1 where a: "upsert_exchange E now exchange emb db = Inr db1"
    and b: "pg_upsert_tool_calls E (carried exchange) db1 = Inr db'"
    by (rule Postgres_insertExchange_None)
  from a obtain ts where ts: "timestamptz_in E (x_timestamp exchange) = Some ts"
    and db1: "db1 = db\<lparr>pg_exchanges :=
                 on_conflict_update id' (pg_exchange_row ts now exchange emb) (pg_exchanges db)\<rparr>"
    by (rule upsert_exchange_Inr)
  have same: "pg_exchanges db' = pg_exchanges db1"
    by (rule pg_upsert_tool_calls_exchanges [OF b])
  have "filter (\<lambda>e. id' e = id' (pg_exchange_row ts now exchange emb))
          (on_conflict_update id' (pg_exchange_row ts now exchange emb) (pg_exchanges db)) =
        [pg_exchange_row ts now exchange emb]"
    using assms(2) by (rule filter_on_conflict_update_same)
  with same db1 ts
  show "\<exists>ts. timestamptz_in E (x_timestamp exchange) = Some ts \<and>
           filter (\<lambda>e. id' e = x_id exchange) (pg_exchanges db') =
             [pg_exchange_row ts now exchange emb]"
    by (simp add: id_pg_exchange_row)
  from same db1 assms(2) show "distinct (map id' (pg_exchanges db'))"
    by (simp add: distinct_on_conflict_update)
qed

lemmas fixture_defs =
  test_row_def test_tool_row_def test_tool_call_def test_exchange_def test_engine_def
  orphan_store_def empty_sqlite_def empty_pg_def original_def updated_def sqlite_with_def
  pg_with_def reindexed_def sqlite_reindexed_def pg_store_def pg_reindexed_def failing_exchange_def

lemma sqlite_first:
  "Sqlite_insertExchange test_engine 1 (Some empty_sqlite) original (createEmbedding 0.1) =
     (None, Some (sqlite_with original 1 (createEmbedding 0.1)))"
  by code_simp

lemma sqlite_second:
  "Sqlite_insertExchange test_engine 2 (Some (sqlite_with original 1 (createEmbedding 0.1)))
       updated (createEmbedding 0.2) =
     (None, Some (sqlite_with updated 2 (createEmbedding 0.2)))"
  by code_simp

lemma pg_first:
  "Postgres_insertExchange test_engine 1 (Some empty_pg) original (createEmbedding 0.1) =
     (None, Some (pg_with original 1 (createEmbedding 0.1)))"
  by code_simp

lemma pg_second:
  "Postgres_insertExchange test_engine 2 (Some (pg_with original 1 (createEmbedding 0.1)))
       updated (createEmbedding 0.2) =
     (None, Some (pg_with updated 2 (createEmbedding 0.2)))"
  by code_simp

lemma sqlite_reindex:
  "Sqlite_insertExchange test_engine 5 (Some (orphan_store True)) reindexed (createEmbedding 0.2) =
     (None, Some sqlite_reindexed)"
  by code_simp

lemma pg_reindex:
  "Postgres_insertExchange test_engine 5 (Some pg_store) reindexed (createEmbedding 0.2) =
     (None, Some pg_reindexed)"
  by code_simp

lemma failing_steps:
  "upsert_exchange test_engine 0 failing_exchange (createEmbedding 0.1) empty_pg =
     Inr after_exchange \<and>
   toolCalls failing_exchange =
     Some ([test_tool_call ''t1'' ''e1''] @ test_tool_call ''t2'' ''other'' # []) \<and>
   pg_upsert_tool_calls test_engine [test_tool_call ''t1'' ''e1''] after_exchange =
     Inr after_first_tool_call \<and>
   upsert_tool_call test_engine (test_tool_call ''t2'' ''other'') after_first_tool_call =
     Inl ForeignKeyViolation"
  by code_simp

lemma pg_upsert_tool_calls_fails_at:
  "pg_upsert_tool_calls E pre db1 = Inr db2 \<Longrightarrow> upsert_tool_call E t db2 = Inl e \<Longrightarrow>
     pg_upsert_tool_calls E (pre @ t # post) db1 = Inl e"
proof (induction pre arbitrary: db1)
  case Nil
  then show ?case by simp
next
  case (Cons a pre)
  from Cons.prems(1) obtain db' where a: "upsert_tool_call E a db1 = Inr db'"
    and rest: "pg_upsert_tool_calls E pre db' = Inr db2"
    by (auto split: sum.splits)
  from Cons.IH [OF rest Cons.prems(2)] a show ?case by simp
qed

subsection \<open>Atomicity of the server's write\<close>

text \<open>
  C5. The server backend's \<^verbatim>\<open>insertExchange\<close> is atomic. If the exchange's upsert fails,
  or if it succeeds and, after the upserts of the tool calls before it succeeded, the upsert
  of any one tool call fails, then the call throws the error of that statement and the
  tables are exactly those before the call, whatever the earlier statements had written.
  And whatever the call returns, either it threw and the tables are those before the call,
  or it completed and the tables hold the exchange's row and a row for every tool call the
  exchange carries. No other outcome exists, so an exchange without its tool calls, or tool
  calls without their exchange, is never left behind by the call.
\<close>

theorem Postgres_insertExchange_atomic:
  "(upsert_exchange E now exchange emb db = Inl e \<longrightarrow>
      Postgres_insertExchange E now (Some db) exchange emb = (Some e, Some db)) \<and>
   (upsert_exchange E now exchange emb db = Inr db1 \<and>
    toolCalls exchange = Some (pre @ t # post) \<and>
    pg_upsert_tool_calls E pre db1 = Inr db2 \<and> upsert_tool_call E t db2 = Inl e \<longrightarrow>
      Postgres_insertExchange E now (Some db) exchange emb = (Some e, Some db)) \<and>
   (Postgres_insertExchange E now (Some db) exchange emb = (r, P) \<longrightarrow>
      (\<exists>e. r = Some e \<and> P = Some db) \<or>
      (\<exists>db'. r = None \<and> P = Some db' \<and>
             x_id exchange \<in> id' ` set (pg_exchanges db') \<and>
             t_id ` set (carried exchange) \<subseteq> tc_id ` set (pg_tool_calls db')))"
proof (intro conjI impI)
  assume "upsert_exchange E now exchange emb db = Inl e"
  then show "Postgres_insertExchange E now (Some db) exchange emb = (Some e, Some db)"
    by (simp add: Postgres_insertExchange_def insert_statements_def)
next
  assume h: "upsert_exchange E now exchange emb db = Inr db1 \<and>
    toolCalls exchange = Some (pre @ t # post) \<and>
    pg_upsert_tool_calls E pre db1 = Inr db2 \<and> upsert_tool_call E t db2 = Inl e"
  then have "pg_upsert_tool_calls E (pre @ t # post) db1 = Inl e"
    by (intro pg_upsert_tool_calls_fails_at [of E pre db1 db2]) simp_all
  with h show "Postgres_insertExchange E now (Some db) exchange emb = (Some e, Some db)"
    by (simp add: Postgres_insertExchange_def insert_statements_def)
next
  assume call: "Postgres_insertExchange E now (Some db) exchange emb = (r, P)"
  show "(\<exists>e. r = Some e \<and> P = Some db) \<or>
      (\<exists>db'. r = None \<and> P = Some db' \<and>
             x_id exchange \<in> id' ` set (pg_exchanges db') \<and>
             t_id ` set (carried exchange) \<subseteq> tc_id ` set (pg_tool_calls db'))"
  proof (cases "insert_statements E now exchange emb db")
    case (Inl e)
    with call show ?thesis by (auto simp: Postgres_insertExchange_def)
  next
    case (Inr db')
    with call have "r = None" "P = Some db'" by (auto simp: Postgres_insertExchange_def)
    with insert_statements_keys [OF Inr] show ?thesis by auto
  qed
qed

theorem Postgres_insertExchange_atomic_witness:
  "(upsert_exchange test_engine 0 failing_exchange (createEmbedding 0.1) empty_pg =
      Inr after_exchange \<and>
    toolCalls failing_exchange =
      Some ([test_tool_call ''t1'' ''e1''] @ test_tool_call ''t2'' ''other'' # []) \<and>
    pg_upsert_tool_calls test_engine [test_tool_call ''t1'' ''e1''] after_exchange =
      Inr after_first_tool_call \<and>
    upsert_tool_call test_engine (test_tool_call ''t2'' ''other'') after_first_tool_call =
      Inl ForeignKeyViolation) \<and>
   Postgres_insertExchange test_engine 0 (Some empty_pg) failing_exchange (createEmbedding 0.1) =
     (Some ForeignKeyViolation, Some empty_pg)"
  using Postgres_insertExchange_atomic [of test_engine 0 failing_exchange "createEmbedding 0.1"
      empty_pg ForeignKeyViolation after_exchange "[test_tool_call ''t1'' ''e1'']"
      "test_tool_call ''t2'' ''other''" "[]" after_first_tool_call]
    failing_steps
  by blast


subsection \<open>Writing one identifier twice\<close>

text \<open>
  C8. Two completed calls of \<^verbatim>\<open>insertExchange\<close> with the same identifier leave exactly one
  row for it in \<^verbatim>\<open>exchanges\<close>, the row of the second call (its field values, its
  embedding on the server, its clock reading), and on the embedded backend exactly one
  vector entry, the second embedding. The server's table is taken with its primary key
  intact before the first call.
\<close>

theorem insertExchange_twice:
  "(Sqlite_insertExchange E now1 (Some s) ex1 emb1 = (None, Some s1) \<and>
    Sqlite_insertExchange E now2 (Some s1) ex2 emb2 = (None, Some s2) \<and>
    x_id ex2 = x_id ex1 \<longrightarrow>
      filter (\<lambda>e. id' e = x_id ex1) (exchanges s2) = [sqlite_exchange_row now2 ex2] \<and>
      filter (\<lambda>v. fst v = x_id ex1) (vec_exchanges s2) = [(x_id ex1, emb2)]) \<and>
   (distinct (map id' (pg_exchanges db)) \<and>
    Postgres_insertExchange E now1 (Some db) ex1 emb1 = (None, Some db1) \<and>
    Postgres_insertExchange E now2 (Some db1) ex2 emb2 = (None, Some db2) \<and>
    x_id ex2 = x_id ex1 \<longrightarrow>
      (\<exists>ts. timestamptz_in E (x_timestamp ex2) = Some ts \<and>
            filter (\<lambda>e. id' e = x_id ex1) (pg_exchanges db2) =
              [pg_exchange_row ts now2 ex2 emb2]))"
proof (intro conjI impI)
  assume h: "Sqlite_insertExchange E now1 (Some s) ex1 emb1 = (None, Some s1) \<and>
    Sqlite_insertExchange E now2 (Some s1) ex2 emb2 = (None, Some s2) \<and> x_id ex2 = x_id ex1"
  then have second: "Sqlite_insertExchange E now2 (Some s1) ex2 emb2 = (None, Some s2)"
    and same: "x_id ex2 = x_id ex1" by simp_all
  from Sqlite_insertExchange_row(1) [OF second] same
  show "filter (\<lambda>e. id' e = x_id ex1) (exchanges s2) = [sqlite_exchange_row now2 ex2]" by simp
  from Sqlite_insertExchange_row(2) [OF second] same
  show "filter (\<lambda>v. fst v = x_id ex1) (vec_exchanges s2) = [(x_id ex1, emb2)]" by simp
next
  assume h: "distinct (map id' (pg_exchanges db)) \<and>
    Postgres_insertExchange E now1 (Some db) ex1 emb1 = (None, Some db1) \<and>
    Postgres_insertExchange E now2 (Some db1) ex2 emb2 = (None, Some db2) \<and>
    x_id ex2 = x_id ex1"
  then have d: "distinct (map id' (pg_exchanges db))"
    and first: "Postgres_insertExchange E now1 (Some db) ex1 emb1 = (None, Some db1)"
    and second: "Postgres_insertExchange E now2 (Some db1) ex2 emb2 = (None, Some db2)"
    and same: "x_id ex2 = x_id ex1" by simp_all
  from Postgres_insertExchange_row(2) [OF first d]
  have "distinct (map id' (pg_exchanges db1))" .
  from Postgres_insertExchange_row(1) [OF second this] same
  show "\<exists>ts. timestamptz_in E (x_timestamp ex2) = Some ts \<and>
            filter (\<lambda>e. id' e = x_id ex1) (pg_exchanges db2) =
              [pg_exchange_row ts now2 ex2 emb2]" by simp
qed

theorem insertExchange_twice_witness:
  "(Sqlite_insertExchange test_engine 1 (Some empty_sqlite) original (createEmbedding 0.1) =
      (None, Some (sqlite_with original 1 (createEmbedding 0.1))) \<and>
    Sqlite_insertExchange test_engine 2 (Some (sqlite_with original 1 (createEmbedding 0.1)))
        updated (createEmbedding 0.2) =
      (None, Some (sqlite_with updated 2 (createEmbedding 0.2))) \<and>
    x_id updated = x_id original) \<and>
   filter (\<lambda>e. id' e = x_id original) (exchanges (sqlite_with updated 2 (createEmbedding 0.2))) =
     [sqlite_exchange_row 2 updated] \<and>
   filter (\<lambda>v. fst v = x_id original) (vec_exchanges (sqlite_with updated 2 (createEmbedding 0.2))) =
     [(x_id original, createEmbedding 0.2)] \<and>
   (distinct (map id' (pg_exchanges empty_pg)) \<and>
    Postgres_insertExchange test_engine 1 (Some empty_pg) original (createEmbedding 0.1) =
      (None, Some (pg_with original 1 (createEmbedding 0.1))) \<and>
    Postgres_insertExchange test_engine 2 (Some (pg_with original 1 (createEmbedding 0.1)))
        updated (createEmbedding 0.2) =
      (None, Some (pg_with updated 2 (createEmbedding 0.2)))) \<and>
   (\<exists>ts. timestamptz_in test_engine (x_timestamp updated) = Some ts \<and>
         filter (\<lambda>e. id' e = x_id original) (pg_exchanges (pg_with updated 2 (createEmbedding 0.2))) =
           [pg_exchange_row ts 2 updated (createEmbedding 0.2)])"
proof -
  have same: "x_id updated = x_id original"
    by (simp add: fixture_defs)
  have d: "distinct (map id' (pg_exchanges empty_pg))" by (simp add: empty_pg_def)
  from insertExchange_twice [of test_engine 1 empty_sqlite original "createEmbedding 0.1"
      "sqlite_with original 1 (createEmbedding 0.1)" 2 updated "createEmbedding 0.2"
      "sqlite_with updated 2 (createEmbedding 0.2)" empty_pg
      "pg_with original 1 (createEmbedding 0.1)" "pg_with updated 2 (createEmbedding 0.2)"]
    sqlite_first sqlite_second pg_first pg_second same d
  show ?thesis by blast
qed

subsection \<open>Tool calls of a reindexed exchange\<close>

text \<open>
  C3, as the claim states it, fails on both backends: \<^verbatim>\<open>insertExchange\<close> deletes no tool
  call. Reindexing the exchange \<^verbatim>\<open>test-cascade\<close>, stored with the tool call
  \<^verbatim>\<open>tool-cascade\<close>, by an object that carries only \<^verbatim>\<open>tool-new\<close> completes and leaves both
  tool calls owned by the exchange.
\<close>

theorem insertExchange_keeps_stale_tool_calls:
  "Sqlite_insertExchange test_engine 5 (Some (orphan_store True)) reindexed (createEmbedding 0.2) =
     (None, Some sqlite_reindexed) \<and>
   map tc_id (tool_calls sqlite_reindexed) = [''tool-cascade'', ''tool-new''] \<and>
   map exchange_id (tool_calls sqlite_reindexed) = [''test-cascade'', ''test-cascade''] \<and>
   Postgres_insertExchange test_engine 5 (Some pg_store) reindexed (createEmbedding 0.2) =
     (None, Some pg_reindexed) \<and>
   map tc_id (pg_tool_calls pg_reindexed) = [''tool-cascade'', ''tool-new''] \<and>
   map exchange_id (pg_tool_calls pg_reindexed) = [''test-cascade'', ''test-cascade''] \<and>
   x_id reindexed = ''test-cascade'' \<and>
   map t_id (carried reindexed) = [''tool-new'']"
  by code_simp

text \<open>
  C3, amended. A completed \<^verbatim>\<open>insertExchange\<close> upserts the carried tool calls by their
  identifiers: on either backend, the row stored under a tool-call identifier afterwards
  is the row of the last carried tool call with that identifier, and when the object
  carries none with that identifier it is the row stored before the call.
\<close>

theorem insertExchange_upserts_tool_calls:
  "(Sqlite_insertExchange E now (Some s) exchange emb = (None, Some s') \<longrightarrow>
      find (\<lambda>t. tc_id t = k) (tool_calls s') =
        (case find (\<lambda>t. t_id t = k) (rev (carried exchange)) of
           Some t \<Rightarrow> Some (sqlite_tool_call_row E t)
         | None \<Rightarrow> find (\<lambda>t. tc_id t = k) (tool_calls s))) \<and>
   (Postgres_insertExchange E now (Some db) exchange emb = (None, Some db') \<longrightarrow>
      find (\<lambda>t. tc_id t = k) (pg_tool_calls db') =
        (case find (\<lambda>t. t_id t = k) (rev (carried exchange)) of
           Some t \<Rightarrow> map_option (\<lambda>ts. pg_tool_call_row E ts t) (timestamptz_in E (t_timestamp t))
         | None \<Rightarrow> find (\<lambda>t. tc_id t = k) (pg_tool_calls db)))"
  using Sqlite_insertExchange_tool_calls Postgres_insertExchange_tool_calls by blast

theorem insertExchange_upserts_tool_calls_witness:
  "Sqlite_insertExchange test_engine 5 (Some (orphan_store True)) reindexed (createEmbedding 0.2) =
     (None, Some sqlite_reindexed) \<and>
   Postgres_insertExchange test_engine 5 (Some pg_store) reindexed (createEmbedding 0.2) =
     (None, Some pg_reindexed) \<and>
   find (\<lambda>t. t_id t = ''tool-cascade'') (rev (carried reindexed)) = None \<and>
   find (\<lambda>t. tc_id t = ''tool-cascade'') (tool_calls sqlite_reindexed) =
     find (\<lambda>t. tc_id t = ''tool-cascade'') (tool_calls (orphan_store True)) \<and>
   find (\<lambda>t. tc_id t = ''tool-cascade'') (pg_tool_calls pg_reindexed) =
     find (\<lambda>t. tc_id t = ''tool-cascade'') (pg_tool_calls pg_store) \<and>
   find (\<lambda>t. tc_id t = ''tool-cascade'') (pg_tool_calls pg_store) =
     Some (test_tool_row ''tool-cascade'' ''test-cascade'' ''2025-01-01T12:00:01Z'')"
proof -
  have a: "find (\<lambda>t. t_id t = ''tool-cascade'') (rev (carried reindexed)) = None"
    by (simp add: carried_def fixture_defs)
  have b: "find (\<lambda>t. tc_id t = ''tool-cascade'') (pg_tool_calls pg_store) =
             Some (test_tool_row ''tool-cascade'' ''test-cascade'' ''2025-01-01T12:00:01Z'')"
    by (simp add: fixture_defs)
  from insertExchange_upserts_tool_calls [of test_engine 5 "orphan_store True" reindexed
      "createEmbedding 0.2" sqlite_reindexed "''tool-cascade''" pg_store pg_reindexed]
    sqlite_reindex pg_reindex a b
  show ?thesis by simp
qed

subsection \<open>The time window of a search\<close>













lemma in_window_iff:
  "in_window a b t \<longleftrightarrow> (\<forall>x. a = Some x \<longrightarrow> x \<le> t) \<and> (\<forall>y. b = Some y \<longrightarrow> t \<le> y)"
  by (auto simp: in_window_def split: option.splits)








lemma sqlite_text_january:
  "Sqlite_searchByText (Some dated_store) ''MESSAGE'' (january 10) =
     Inr [(dated_rows ! 2, 0), (dated_rows ! 1, 0)]"
  by code_simp


lemma pg_text_january:
  "Postgres_searchByText test_engine (Some dated_pg) ''MESSAGE'' (january 10) =
     Inr [(pg_exchanges dated_pg ! 2, 0), (pg_exchanges dated_pg ! 1, 0)]"
  by code_simp





subsection \<open>Nearest neighbours before the time window\<close>

text \<open>
  C10. On the embedded backend \<^verbatim>\<open>searchByVector\<close> takes the \<open>limit\<close> nearest vectors of
  the whole table and applies the time window to them. In the dated store two exchanges
  lie in the window and the limit is 2, yet one row is returned: the nearest vector
  belongs to an exchange before the window and takes one of the two places. The server
  backend, which selects by the window first, returns both.
\<close>

theorem nearest_outside_window_take_slots:
  "Sqlite_searchByVector (Some dated_store) (createEmbedding 0) (january 2) =
     Inr [(dated_rows ! 1, 1)] \<and>
   map id' (filter (sqlite_time_clause (january 2)) (exchanges dated_store)) = [''vec-1'', ''vec-2''] \<and>
   limit_or_default (january 2) = 2 \<and>
   knn (createEmbedding 0) 2 (vec_exchanges dated_store) = [(''vec-dated'', 0), (''vec-1'', 1)] \<and>
   Postgres_searchByVector test_engine (Some dated_pg) (createEmbedding 0) (january 2) =
     Inr [(pg_exchanges dated_pg ! 1, 1), (pg_exchanges dated_pg ! 2, 4)]"
  by code_simp

subsection \<open>Text matching\<close>

lemma upper_code:
  assumes "CHR ''A'' \<le> c" "c \<le> CHR ''Z''"
  shows "65 \<le> (of_char c :: nat)" and "(of_char c :: nat) \<le> 90"
  using assms unfolding less_eq_char_def by simp_all

lemma lower_code:
  assumes "CHR ''A'' \<le> c" "c \<le> CHR ''Z''"
  shows "(of_char (lower c) :: nat) = of_char c + 32"
proof -
  from assms have "lower c = char_of (of_char c + (32::nat))" by (simp add: lower_def)
  then have "(of_char (lower c) :: nat) = (of_char c + 32) mod 256" by (simp only: of_char_of)
  with upper_code(2) [OF assms] show ?thesis by simp
qed

lemma lower_range:
  assumes "CHR ''A'' \<le> c" "c \<le> CHR ''Z''"
  shows "97 \<le> (of_char (lower c) :: nat)" and "(of_char (lower c) :: nat) \<le> 122"
  using lower_code [OF assms] upper_code [OF assms] by simp_all

lemma lower_other: "\<not> (CHR ''A'' \<le> c \<and> c \<le> CHR ''Z'') \<Longrightarrow> lower c = c"
  unfolding lower_def by (rule if_not_P)

lemma lower_lower [simp]: "lower (lower c) = lower c"
proof (cases "CHR ''A'' \<le> c \<and> c \<le> CHR ''Z''")
  case False
  then show ?thesis by (simp add: lower_other)
next
  case True
  then have "97 \<le> (of_char (lower c) :: nat)" by (simp add: lower_range)
  then have "\<not> lower c \<le> CHR ''Z''" unfolding less_eq_char_def by simp
  then show ?thesis by (simp add: lower_other)
qed

lemma lower_eq_special:
  assumes "(of_char x :: nat) < 65 \<or> (90 < (of_char x :: nat) \<and> (of_char x :: nat) < 97) \<or>
           122 < (of_char x :: nat)"
  shows "lower c = x \<longleftrightarrow> c = x"
proof (cases "CHR ''A'' \<le> c \<and> c \<le> CHR ''Z''")
  case False
  then show ?thesis by (simp add: lower_other)
next
  case True
  then have l: "97 \<le> (of_char (lower c) :: nat)" "(of_char (lower c) :: nat) \<le> 122"
    by (simp_all add: lower_range)
  from True have u: "65 \<le> (of_char c :: nat)" "(of_char c :: nat) \<le> 90"
    by (simp_all add: upper_code)
  from l assms have "lower c \<noteq> x" by auto
  moreover from u assms have "c \<noteq> x" by auto
  ultimately show ?thesis by simp
qed

lemma lower_percent [simp]: "lower c = CHR ''%'' \<longleftrightarrow> c = CHR ''%''"
  by (rule lower_eq_special) simp

lemma lower_underscore [simp]: "lower c = CHR ''_'' \<longleftrightarrow> c = CHR ''_''"
  by (rule lower_eq_special) simp

lemma lower_backslash [simp]: "lower c = CHR 0x5C \<longleftrightarrow> c = CHR 0x5C"
  by (rule lower_eq_special) simp

lemma like_match_lower: "like_match esc (map lower p) s = like_match esc p s"
proof (induction esc p s rule: like_match.induct)
  case (1 esc s)
  then show ?case by simp
next
  case (2 esc p ps)
  then show ?case by simp
next
  case (3 esc p ps c cs)
  show ?case
  proof (cases "p = CHR ''%''")
    case True
    with 3 show ?thesis by simp
  next
    case np: False
    show ?thesis
    proof (cases "p = CHR ''_''")
      case True
      with np 3 show ?thesis by simp
    next
      case nu: False
      show ?thesis
      proof (cases "esc \<and> p = CHR 0x5C")
        case True
        with np nu 3 show ?thesis by (cases ps) simp_all
      next
        case False
        with np nu 3 show ?thesis by auto
      qed
    qed
  qed
qed

lemma like_match_case_insensitive:
  "map lower p = map lower p' \<Longrightarrow> like_match esc p s = like_match esc p' s"
  by (metis like_match_lower)

lemma likePattern_lower: "map lower (likePattern q) = likePattern (map lower q)"
proof -
  have "lower CHR ''%'' = CHR ''%''" by simp
  then show ?thesis by (simp add: likePattern_def)
qed

lemma likePattern_case_insensitive:
  assumes "map lower q1 = map lower q2"
  shows "like_match esc (likePattern q1) s = like_match esc (likePattern q2) s"
proof -
  from assms have "map lower (likePattern q1) = map lower (likePattern q2)"
    by (simp add: likePattern_lower)
  then show ?thesis by (rule like_match_case_insensitive)
qed

lemma like_match_percent [simp]: "like_match esc [CHR ''%''] s"
  by (induction s) simp_all

lemma like_match_prefix:
  "plain esc q \<Longrightarrow> like_match esc (q @ [CHR ''%'']) s = prefix_ci q s"
proof (induction q s rule: prefix_ci.induct)
  case (1 s)
  then show ?case by simp
next
  case (2 a q)
  then show ?case by (auto simp: plain_def)
next
  case (3 a q c cs)
  from "3.prems" have "plain esc q" by (auto simp: plain_def)
  with 3 show ?case by (auto simp: plain_def)
qed

lemma like_match_contains:
  "plain esc q \<Longrightarrow> like_match esc (likePattern q) s = contains_ci q s"
proof (induction s)
  case Nil
  then have "like_match esc (q @ [CHR ''%'']) [] = prefix_ci q []" by (rule like_match_prefix)
  then show ?case by (cases q) (simp_all add: likePattern_def)
next
  case (Cons c cs)
  from Cons.prems have "like_match esc (q @ [CHR ''%'']) (c # cs) = prefix_ci q (c # cs)"
    by (rule like_match_prefix)
  with Cons show ?case by (simp add: likePattern_def)
qed

lemma prefix_ci_iff: "prefix_ci q s \<longleftrightarrow> (\<exists>v w. s = v @ w \<and> map lower v = map lower q)"
proof (induction q s rule: prefix_ci.induct)
  case (1 s)
  then show ?case by simp
next
  case (2 a q)
  then show ?case by simp
next
  case (3 a q c cs)
  show ?case
  proof
    assume "prefix_ci (a # q) (c # cs)"
    with 3 obtain v w where "lower a = lower c" "cs = v @ w" "map lower v = map lower q" by auto
    then have "c # cs = (c # v) @ w \<and> map lower (c # v) = map lower (a # q)" by simp
    then show "\<exists>v w. c # cs = v @ w \<and> map lower v = map lower (a # q)" by blast
  next
    assume "\<exists>v w. c # cs = v @ w \<and> map lower v = map lower (a # q)"
    then obtain v w where vw: "c # cs = v @ w" "map lower v = map lower (a # q)" by blast
    then obtain v' where v: "v = c # v'" by (cases v) auto
    with vw have "cs = v' @ w" "map lower v' = map lower q" "lower c = lower a" by auto
    with 3 show "prefix_ci (a # q) (c # cs)" by auto
  qed
qed

lemma contains_ci_iff:
  "contains_ci q s \<longleftrightarrow> (\<exists>u v w. s = u @ v @ w \<and> map lower v = map lower q)"
proof (induction s)
  case Nil
  then show ?case by auto
next
  case (Cons c cs)
  show ?case
  proof
    assume "contains_ci q (c # cs)"
    then consider "prefix_ci q (c # cs)" | "contains_ci q cs" by auto
    then show "\<exists>u v w. c # cs = u @ v @ w \<and> map lower v = map lower q"
    proof cases
      case 1
      then obtain v w where "c # cs = [] @ v @ w \<and> map lower v = map lower q"
        by (auto simp: prefix_ci_iff)
      then show ?thesis by blast
    next
      case 2
      with Cons obtain u v w where "cs = u @ v @ w" "map lower v = map lower q" by auto
      then have "c # cs = (c # u) @ v @ w \<and> map lower v = map lower q" by simp
      then show ?thesis by blast
    qed
  next
    assume "\<exists>u v w. c # cs = u @ v @ w \<and> map lower v = map lower q"
    then obtain u v w where uvw: "c # cs = u @ v @ w" "map lower v = map lower q" by blast
    show "contains_ci q (c # cs)"
    proof (cases u)
      case Nil
      with uvw have "prefix_ci q (c # cs)" by (auto simp: prefix_ci_iff)
      then show ?thesis by simp
    next
      case (Cons x u')
      with uvw have "cs = u' @ v @ w" by simp
      with uvw(2) Cons.IH have "contains_ci q cs" by blast
      then show ?thesis by simp
    qed
  qed
qed

lemma Sqlite_searchByText_case:
  assumes "map lower q1 = map lower q2"
  shows "Sqlite_searchByText P q1 opts = Sqlite_searchByText P q2 opts"
proof -
  have h: "\<And>s. LIKE s (likePattern q1) = LIKE s (likePattern q2)"
    unfolding LIKE_def using assms by (rule likePattern_case_insensitive)
  show ?thesis unfolding Sqlite_searchByText_def h by (rule refl)
qed

lemma Postgres_searchByText_case:
  fixes E :: "('j, 'ts::linorder) engine"
  assumes "map lower q1 = map lower q2"
  shows "Postgres_searchByText E S q1 opts = Postgres_searchByText E S q2 opts"
proof -
  have h: "\<And>s. ILIKE s (likePattern q1) = ILIKE s (likePattern q2)"
    unfolding ILIKE_def using assms by (rule likePattern_case_insensitive)
  show ?thesis unfolding Postgres_searchByText_def h by (rule refl)
qed

lemma docker_hypotheses:
  "map lower ''docker'' = map lower ''DOCKER'' \<and> plain False ''docker'' \<and> plain True ''docker'' \<and>
   contains_ci ''docker'' ''How to use Docker''"
  by code_simp

text \<open>
  C4, as the claim states it, fails on the embedded backend: its \<^verbatim>\<open>LIKE\<close> folds ASCII
  case, so the query \<^verbatim>\<open>DOCKER\<close> finds the exchanges whose messages say \<^verbatim>\<open>Docker\<close> and
  \<^verbatim>\<open>docker\<close>. Nor is the query a plain substring on either backend: it is spliced into
  the pattern, where \<^verbatim>\<open>D_cker\<close> matches \<^verbatim>\<open>Docker\<close>.
\<close>

theorem Sqlite_searchByText_folds_case:
  "Sqlite_searchByText (Some docker_store) ''DOCKER'' no_options =
     Inr [(docker_rows ! 0, 0), (docker_rows ! 2, 0)] \<and>
   user_message (docker_rows ! 0) = ''How to use Docker'' \<and>
   assistant_message (docker_rows ! 0) = ''Docker is a container platform'' \<and>
   user_message (docker_rows ! 2) = ''Docker compose tutorial'' \<and>
   assistant_message (docker_rows ! 2) = ''Use docker-compose.yml'' \<and>
   Postgres_searchByText test_engine (Some docker_pg) ''D_cker'' no_options =
     Inr [(docker_rows ! 0, 0), (docker_rows ! 2, 0)]"
  by code_simp

text \<open>
  C4, amended. On both backends \<^verbatim>\<open>searchByText\<close> matches without regard to ASCII case:
  two queries that differ only in the case of ASCII letters give the same result on the
  embedded backend and the same result on the server backend. The query is the middle of
  the pattern \<^verbatim>\<open>%query%\<close>; for a plain query the pattern matches a message exactly when
  the message contains the query as a case-insensitive substring.
\<close>

theorem searchByText_case_insensitive:
  fixes E :: "('j, 'ts::linorder) engine"
  shows
    "(map lower q1 = map lower q2 \<longrightarrow>
        Sqlite_searchByText P q1 opts = Sqlite_searchByText P q2 opts \<and>
        Postgres_searchByText E S q1 opts = Postgres_searchByText E S q2 opts) \<and>
     (plain False q \<longrightarrow> LIKE s (likePattern q) = contains_ci q s) \<and>
     (plain True q \<longrightarrow> ILIKE s (likePattern q) = contains_ci q s)"
  using Sqlite_searchByText_case [of q1 q2 P opts] Postgres_searchByText_case [of q1 q2 E S opts]
    like_match_contains [of False q s] like_match_contains [of True q s]
  by (simp add: LIKE_def ILIKE_def)

theorem searchByText_case_insensitive_witness:
  "map lower ''docker'' = map lower ''DOCKER'' \<and>
   Sqlite_searchByText (Some docker_store) ''docker'' no_options =
     Sqlite_searchByText (Some docker_store) ''DOCKER'' no_options \<and>
   Postgres_searchByText test_engine (Some docker_pg) ''docker'' no_options =
     Postgres_searchByText test_engine (Some docker_pg) ''DOCKER'' no_options \<and>
   plain False ''docker'' \<and> plain True ''docker'' \<and>
   contains_ci ''docker'' ''How to use Docker'' \<and>
   LIKE ''How to use Docker'' (likePattern ''docker'') \<and>
   ILIKE ''How to use Docker'' (likePattern ''docker'')"
  using searchByText_case_insensitive [of "''docker''" "''DOCKER''" "Some docker_store" no_options
      test_engine "Some docker_pg" "''docker''" "''How to use Docker''"]
    docker_hypotheses
  by simp

subsection \<open>The loops of the migration\<close>

lemma fst_migrate_row:
  "fst (migrate_row E clock dry sdb row (m, out)) = row_step E clock dry sdb row m"
  by (simp add: row_step_def migrate_row_def split: option.splits sum.splits prod.splits)

lemma fst_fold_migrate_row:
  "fst (fold (migrate_row E clock dry sdb) rows st) = fold (row_step E clock dry sdb) rows (fst st)"
proof (induction rows arbitrary: st)
  case Nil
  then show ?case by simp
next
  case (Cons row rows)
  have "fst (migrate_row E clock dry sdb row st) = row_step E clock dry sdb row (fst st)"
    using fst_migrate_row [of E clock dry sdb row "fst st" "snd st"] by simp
  with Cons show ?case by simp
qed

lemma fold_take_drop: "fold f (drop k ys) (fold f (take k ys) a) = fold f ys a"
proof -
  have "fold f ys a = fold f (take k ys @ drop k ys) a" by simp
  also have "\<dots> = fold f (drop k ys) (fold f (take k ys) a)"
    by (simp only: fold_append comp_apply)
  finally show ?thesis by simp
qed

lemma slice_batch:
  assumes "0 \<le> i" "i < int (length xs)" "0 < b"
  shows "slice xs i (i + b) = take (nat b) (drop (nat i) xs)"
proof (cases "i + b \<le> int (length xs)")
  case True
  with assms show ?thesis by (simp add: slice_def Let_def min_def)
next
  case False
  with assms have "slice xs i (i + b) = take (nat (int (length xs) - i)) (drop (nat i) xs)"
    by (simp add: slice_def Let_def min_def)
  also from assms have "\<dots> = drop (nat i) xs" by simp
  also from False assms have "\<dots> = take (nat b) (drop (nat i) xs)" by simp
  finally show ?thesis .
qed

lemma migrate_batches_terminates:
  assumes "0 < b"
  shows "0 \<le> i \<Longrightarrow> \<exists>out'. migrate_batches E clock dry sdb b n xs i st =
           Some (fold (row_step E clock dry sdb) (drop (nat i) xs) (fst st), out')"
proof (induction "nat (int (length xs) - i)" arbitrary: i st rule: less_induct)
  case less
  show ?case
  proof (cases "i < int (length xs)")
    case False
    then have "migrate_batches E clock dry sdb b n xs i st = Some st"
      by (subst migrate_batches.simps) simp
    moreover from False less.prems have "drop (nat i) xs = []" by simp
    ultimately show ?thesis by (cases st) simp
  next
    case True
    let ?batch = "take (nat b) (drop (nat i) xs)"
    let ?st' = "fold (migrate_row E clock dry sdb) ?batch st"
    let ?next = "(fst ?st', snd ?st' @ [Progress (i + int (length ?batch)) n
                    (processed (fst ?st')) (skipped (fst ?st')) (errors (fst ?st'))])"
    from less.prems True assms have sl: "slice xs i (i + b) = ?batch" by (rule slice_batch)
    from True have unfold: "migrate_batches E clock dry sdb b n xs i st =
        migrate_batches E clock dry sdb b n xs (i + b) ?next"
      by (subst migrate_batches.simps) (simp add: sl Let_def)
    from assms True have "nat (int (length xs) - (i + b)) < nat (int (length xs) - i)" by linarith
    moreover from assms less.prems have "0 \<le> i + b" by simp
    ultimately obtain out' where "migrate_batches E clock dry sdb b n xs (i + b) ?next =
        Some (fold (row_step E clock dry sdb) (drop (nat (i + b)) xs) (fst ?next), out')"
      using less.hyps [of "i + b" ?next] by blast
    moreover have "fst ?next = fold (row_step E clock dry sdb) ?batch (fst st)"
      by (simp add: fst_fold_migrate_row)
    moreover from assms less.prems have "drop (nat (i + b)) xs = drop (nat b) (drop (nat i) xs)"
      by (simp add: nat_add_distrib add.commute)
    moreover have "fold (row_step E clock dry sdb) (drop (nat b) (drop (nat i) xs))
          (fold (row_step E clock dry sdb) ?batch (fst st)) =
        fold (row_step E clock dry sdb) (drop (nat i) xs) (fst st)"
      by (rule fold_take_drop)
    ultimately show ?thesis using unfold by simp
  qed
qed

lemma migrate_batches_diverges:
  fixes E :: "('j, 'ts) engine"
  assumes "migrate_batches E clock dry sdb b n xs i st = Some y"
  shows "0 < b \<or> int (length xs) \<le> i"
proof (rule migrate_batches.raw_induct
    [where P = "\<lambda>E clock dry sdb b n xs i st y. 0 < b \<or> int (length xs) \<le> i", OF _ assms])
  fix f :: "('j, 'ts) engine \<Rightarrow> (nat \<Rightarrow> int) \<Rightarrow> bool \<Rightarrow> sqlite_db \<Rightarrow> int \<Rightarrow> int
      \<Rightarrow> string ExchangeRow list \<Rightarrow> int \<Rightarrow> 'ts run \<times> log_line list
      \<Rightarrow> ('ts run \<times> log_line list) option"
    and E clock dry sdb b n xs i st y
  assume IH: "\<And>E clock dry sdb b n xs i st y.
      f E clock dry sdb b n xs i st = Some y \<Longrightarrow> 0 < b \<or> int (length xs) \<le> i"
  assume body: "(if i < int (length xs)
      then let batch = slice xs i (i + b);
               st' = fold (migrate_row E clock dry sdb) batch st
           in f E clock dry sdb b n xs (i + b)
               (fst st', snd st' @ [Progress (i + int (length batch)) n
                  (processed (fst st')) (skipped (fst st')) (errors (fst st'))])
      else Some st) = Some y"
  show "0 < b \<or> int (length xs) \<le> i"
  proof (cases "i < int (length xs)")
    case False
    then show ?thesis by simp
  next
    case True
    with body obtain st' where "f E clock dry sdb b n xs (i + b) st' = Some y"
      by (auto simp: Let_def)
    then have "0 < b \<or> int (length xs) \<le> i + b" by (rule IH)
    with True show ?thesis by linarith
  qed
qed

lemma migrateToPostgres_single_pass:
  assumes "0 < batchSize_of opts"
  shows "\<exists>out. migrateToPostgres E clock (Some sdb) server opts =
           Some (Inr \<lparr> Migrated = processed (single_pass E clock (dryRun_of opts) sdb server),
                       Skipped = skipped (single_pass E clock (dryRun_of opts) sdb server),
                       Errors = errors (single_pass E clock (dryRun_of opts) sdb server),
                       target = (case pgProvider (single_pass E clock (dryRun_of opts) sdb server) of
                                   None \<Rightarrow> server | Some db \<Rightarrow> db),
                       console = out \<rparr>)"
proof -
  let ?m0 = "\<lparr> processed = 0, skipped = 0, errors = 0,
               pgProvider = (if dryRun_of opts then None else Some server), inserts = 0 \<rparr>"
  from migrate_batches_terminates [OF assms, of 0 E clock "dryRun_of opts" sdb
      "int (length (exchanges sdb))" "sort_key timestamp (exchanges sdb)" "(?m0, [])"]
  obtain out where "migrate_batches E clock (dryRun_of opts) sdb (batchSize_of opts)
      (int (length (exchanges sdb))) (sort_key timestamp (exchanges sdb)) 0 (?m0, []) =
      Some (single_pass E clock (dryRun_of opts) sdb server, out)"
    by (auto simp: single_pass_def)
  then show ?thesis by (simp add: migrateToPostgres_def Let_def)
qed

lemma migrateToPostgres_outcome:
  assumes "0 < batchSize_of opts"
  shows "\<exists>r. migrateToPostgres E clock src server opts = Some r \<and>
             outcome r =
               (case src of
                  None \<Rightarrow> Inl DatabaseNotFound
                | Some sdb \<Rightarrow>
                    Inr (processed (single_pass E clock (dryRun_of opts) sdb server),
                         skipped (single_pass E clock (dryRun_of opts) sdb server),
                         errors (single_pass E clock (dryRun_of opts) sdb server),
                         (case pgProvider (single_pass E clock (dryRun_of opts) sdb server) of
                            None \<Rightarrow> server | Some db \<Rightarrow> db)))"
proof (cases src)
  case None
  then show ?thesis by (simp add: migrateToPostgres_def outcome_def)
next
  case (Some sdb)
  with migrateToPostgres_single_pass [OF assms, of E clock sdb server]
  show ?thesis by (auto simp: outcome_def)
qed

lemma migrateToPostgres_diverges:
  assumes "batchSize_of opts \<le> 0" and "exchanges sdb \<noteq> []"
  shows "migrateToPostgres E clock (Some sdb) server opts = None"
proof -
  let ?m0 = "\<lparr> processed = 0, skipped = 0, errors = 0,
               pgProvider = (if dryRun_of opts then None else Some server), inserts = 0 \<rparr>"
  have "migrate_batches E clock (dryRun_of opts) sdb (batchSize_of opts)
      (int (length (exchanges sdb))) (sort_key timestamp (exchanges sdb)) 0 (?m0, []) = None"
  proof (rule ccontr)
    assume "migrate_batches E clock (dryRun_of opts) sdb (batchSize_of opts)
      (int (length (exchanges sdb))) (sort_key timestamp (exchanges sdb)) 0 (?m0, []) \<noteq> None"
    then obtain y where "migrate_batches E clock (dryRun_of opts) sdb (batchSize_of opts)
      (int (length (exchanges sdb))) (sort_key timestamp (exchanges sdb)) 0 (?m0, []) = Some y"
      by blast
    then have "0 < batchSize_of opts \<or> int (length (sort_key timestamp (exchanges sdb))) \<le> 0"
      by (rule migrate_batches_diverges)
    with assms show False by simp
  qed
  then show ?thesis by (simp add: migrateToPostgres_def Let_def)
qed

lemma trans_sym: "a = c \<Longrightarrow> b = c \<Longrightarrow> a = b"
  by simp

lemma migrateToPostgres_observed:
  assumes "0 < batchSize_of opts"
  shows "map_option observed (migrateToPostgres E clock (Some sdb) server opts) =
           Some (seen E clock sdb server opts)"
proof -
  from migrateToPostgres_single_pass [OF assms, of E clock sdb server] obtain out where
    "migrateToPostgres E clock (Some sdb) server opts =
           Some (Inr \<lparr> Migrated = processed (single_pass E clock (dryRun_of opts) sdb server),
                       Skipped = skipped (single_pass E clock (dryRun_of opts) sdb server),
                       Errors = errors (single_pass E clock (dryRun_of opts) sdb server),
                       target = (case pgProvider (single_pass E clock (dryRun_of opts) sdb server) of
                                   None \<Rightarrow> server | Some db \<Rightarrow> db),
                       console = out \<rparr>)"
    by blast
  then show ?thesis by (simp add: seen_def observed_def Postgres_getStats_def)
qed

lemma batch_sizes:
  "batchSize_of (batches_of 5) = 5 \<and> batchSize_of (batches_of 100) = 100 \<and>
   batchSize_of (batches_of 0) = 0 \<and> batchSize_of default_options = 100 \<and>
   dryRun_of (batches_of 5) = dryRun_of (batches_of 100) \<and> \<not> dryRun_of default_options"
  by (simp add: batchSize_of_def dryRun_of_def batches_of_def default_options_def)

lemma batch_seen:
  "seen test_engine test_clock batch_store empty_pg (batches_of 5) = Inr (15, 0, 0, 15) \<and>
   seen test_engine test_clock batch_store empty_pg (batches_of 100) = Inr (15, 0, 0, 15)"
  by code_simp










subsection \<open>Batch size\<close>

text \<open>
  C9, as the claim states it, fails for a batch size that is not positive: the outer loop
  adds the batch size to its index, so with batch size 0 a migration of the fifteen
  exchanges never returns, while with batch size 100 it returns fifteen migrated.
\<close>

theorem migrateToPostgres_zero_batch_never_returns:
  "migrateToPostgres test_engine test_clock (Some batch_store) empty_pg (batches_of 0) = None \<and>
   map_option observed
     (migrateToPostgres test_engine test_clock (Some batch_store) empty_pg (batches_of 100)) =
     Some (Inr (15, 0, 0, 15))"
proof -
  have "batchSize_of (batches_of 0) \<le> 0" using batch_sizes by simp
  moreover have "exchanges batch_store \<noteq> []" by (simp add: batch_store_def batch_names_def)
  ultimately have "migrateToPostgres test_engine test_clock (Some batch_store) empty_pg
      (batches_of 0) = None"
    by (rule migrateToPostgres_diverges)
  moreover have "0 < batchSize_of (batches_of 100)" using batch_sizes by simp
  then have "map_option observed
      (migrateToPostgres test_engine test_clock (Some batch_store) empty_pg (batches_of 100)) =
      Some (seen test_engine test_clock batch_store empty_pg (batches_of 100))"
    by (rule migrateToPostgres_observed)
  ultimately show ?thesis using batch_seen by simp
qed

text \<open>
  C9, amended. For every embedded store, every server and every clock,
  \<^verbatim>\<open>migrateToPostgres\<close> returns for every positive batch size, and any two positive batch
  sizes give the same migrated, skipped and error counts and the same tables on the
  server; the batches show only in the progress lines.
\<close>

theorem migrateToPostgres_batch_independent:
  "0 < batchSize_of opts \<and> 0 < batchSize_of opts' \<and> dryRun_of opts = dryRun_of opts' \<longrightarrow>
     (\<exists>r r'. migrateToPostgres E clock src server opts = Some r \<and>
             migrateToPostgres E clock src server opts' = Some r' \<and>
             outcome r = outcome r')"
proof
  assume h: "0 < batchSize_of opts \<and> 0 < batchSize_of opts' \<and> dryRun_of opts = dryRun_of opts'"
  then have a: "0 < batchSize_of opts" and b: "0 < batchSize_of opts'"
    and d: "dryRun_of opts = dryRun_of opts'" by simp_all
  from migrateToPostgres_outcome [OF a, of E clock src server]
  obtain r where r: "migrateToPostgres E clock src server opts = Some r"
    and o: "outcome r =
               (case src of
                  None \<Rightarrow> Inl DatabaseNotFound
                | Some sdb \<Rightarrow>
                    Inr (processed (single_pass E clock (dryRun_of opts) sdb server),
                         skipped (single_pass E clock (dryRun_of opts) sdb server),
                         errors (single_pass E clock (dryRun_of opts) sdb server),
                         (case pgProvider (single_pass E clock (dryRun_of opts) sdb server) of
                            None \<Rightarrow> server | Some db \<Rightarrow> db)))"
    by blast
  from migrateToPostgres_outcome [OF b, of E clock src server]
  obtain r' where r': "migrateToPostgres E clock src server opts' = Some r'"
    and o': "outcome r' =
               (case src of
                  None \<Rightarrow> Inl DatabaseNotFound
                | Some sdb \<Rightarrow>
                    Inr (processed (single_pass E clock (dryRun_of opts') sdb server),
                         skipped (single_pass E clock (dryRun_of opts') sdb server),
                         errors (single_pass E clock (dryRun_of opts') sdb server),
                         (case pgProvider (single_pass E clock (dryRun_of opts') sdb server) of
                            None \<Rightarrow> server | Some db \<Rightarrow> db)))"
    by blast
  from o o' have "outcome r = outcome r'" unfolding d by (rule trans_sym)
  with r r' show "\<exists>r r'. migrateToPostgres E clock src server opts = Some r \<and>
             migrateToPostgres E clock src server opts' = Some r' \<and>
             outcome r = outcome r'"
    by blast
qed


theorem migrateToPostgres_batch_independent_witness:
  "(0 < batchSize_of (batches_of 5) \<and> 0 < batchSize_of (batches_of 100) \<and>
    dryRun_of (batches_of 5) = dryRun_of (batches_of 100)) \<and>
   (\<exists>r r'. migrateToPostgres test_engine test_clock (Some batch_store) empty_pg (batches_of 5) =
             Some r \<and>
           migrateToPostgres test_engine test_clock (Some batch_store) empty_pg (batches_of 100) =
             Some r' \<and>
           outcome r = outcome r') \<and>
   map_option observed
     (migrateToPostgres test_engine test_clock (Some batch_store) empty_pg (batches_of 5)) =
     Some (Inr (15, 0, 0, 15)) \<and>
   map_option observed
     (migrateToPostgres test_engine test_clock (Some batch_store) empty_pg (batches_of 100)) =
     Some (Inr (15, 0, 0, 15))"
proof -
  have five: "0 < batchSize_of (batches_of 5)" and hundred: "0 < batchSize_of (batches_of 100)"
    and same: "dryRun_of (batches_of 5) = dryRun_of (batches_of 100)"
    using batch_sizes by simp_all
  from migrateToPostgres_batch_independent [of "batches_of 5" "batches_of 100" test_engine
      test_clock "Some batch_store" empty_pg] five hundred same
  have "\<exists>r r'. migrateToPostgres test_engine test_clock (Some batch_store) empty_pg (batches_of 5) =
             Some r \<and>
           migrateToPostgres test_engine test_clock (Some batch_store) empty_pg (batches_of 100) =
             Some r' \<and>
           outcome r = outcome r'"
    by blast
  with migrateToPostgres_observed [OF five, of test_engine test_clock batch_store empty_pg]
    migrateToPostgres_observed [OF hundred, of test_engine test_clock batch_store empty_pg]
    batch_seen five hundred same
  show ?thesis by simp
qed

subsection \<open>Counts of a migration\<close>





end
